theory Spec2Isabelle
  imports Main
begin

section \<open>Characters and strings\<close>

text \<open>
  The pipeline works on Python \<open>str\<close> values.  They are modelled as \<open>string\<close>: the
  characters below 128 are ASCII and are classified as Python classifies them; the
  characters from 128 on stand for the code units of non-ASCII text (Tamil in the
  documents this program reads) and are neither white space, digits, letters nor word
  characters, and have no case.  So the white space, the digits and the case mappings
  that Python knows outside ASCII (the no-break space, the Tamil digits, the accented
  letters) are not modelled: on a text that has them \<open>\s\<close>, \<open>\d\<close>, \<open>strip\<close> and \<open>upper\<close>
  of the program can differ from the functions below.
\<close>

definition NL :: char where
  "NL = CHR 0x0A"

definition TAB :: char where
  "TAB = CHR 0x09"

text \<open>\<open>str.isspace\<close> and the pattern \<open>\s\<close> on ASCII: tab, line feed, vertical tab, form
  feed, carriage return, the four separators 0x1C..0x1F, and the space.\<close>

definition is_space :: "char \<Rightarrow> bool" where
  "is_space c \<longleftrightarrow> c \<in> set [CHR 0x09, CHR 0x0A, CHR 0x0B, CHR 0x0C, CHR 0x0D,
                            CHR 0x1C, CHR 0x1D, CHR 0x1E, CHR 0x1F, CHR '' '']"

definition is_digit :: "char \<Rightarrow> bool" where
  "is_digit c \<longleftrightarrow> c \<in> set ''0123456789''"

definition is_upper :: "char \<Rightarrow> bool" where
  "is_upper c \<longleftrightarrow> c \<in> set ''ABCDEFGHIJKLMNOPQRSTUVWXYZ''"

definition is_lower :: "char \<Rightarrow> bool" where
  "is_lower c \<longleftrightarrow> c \<in> set ''abcdefghijklmnopqrstuvwxyz''"

definition is_alpha :: "char \<Rightarrow> bool" where
  "is_alpha c \<longleftrightarrow> is_upper c \<or> is_lower c"

definition is_word :: "char \<Rightarrow> bool" where
  "is_word c \<longleftrightarrow> is_alpha c \<or> is_digit c \<or> c = CHR ''_''"

definition upper_char :: "char \<Rightarrow> char" where
  "upper_char c =
     (case map_of (zip ''abcdefghijklmnopqrstuvwxyz'' ''ABCDEFGHIJKLMNOPQRSTUVWXYZ'') c of
        Some u \<Rightarrow> u | None \<Rightarrow> c)"

definition lower_char :: "char \<Rightarrow> char" where
  "lower_char c =
     (case map_of (zip ''ABCDEFGHIJKLMNOPQRSTUVWXYZ'' ''abcdefghijklmnopqrstuvwxyz'') c of
        Some l \<Rightarrow> l | None \<Rightarrow> c)"

text \<open>\<open>s.upper()\<close>, \<open>s.capitalize()\<close>, \<open>s.strip()\<close>, \<open>s.rstrip(chars)\<close>,
  \<open>s.replace(a, b)\<close> for one-character \<open>a\<close>, \<open>a in s\<close> for strings, and the slice
  \<open>s[a:b]\<close> for offsets that are not negative.\<close>

definition upper :: "string \<Rightarrow> string" where
  "upper s = map upper_char s"

definition capitalize :: "string \<Rightarrow> string" where
  "capitalize s = (case s of [] \<Rightarrow> [] | c # cs \<Rightarrow> upper_char c # map lower_char cs)"

definition lstrip :: "string \<Rightarrow> string" where
  "lstrip s = dropWhile is_space s"

definition rstrip :: "string \<Rightarrow> string" where
  "rstrip s = rev (dropWhile is_space (rev s))"

definition strip :: "string \<Rightarrow> string" where
  "strip s = rstrip (lstrip s)"

definition rstrip_chars :: "string \<Rightarrow> string \<Rightarrow> string" where
  "rstrip_chars chars s = rev (dropWhile (\<lambda>c. c \<in> set chars) (rev s))"

definition replace_char :: "char \<Rightarrow> string \<Rightarrow> string \<Rightarrow> string" where
  "replace_char a b s = concat (map (\<lambda>c. if c = a then b else [c]) s)"

fun contains :: "string \<Rightarrow> string \<Rightarrow> bool" where
  "contains p [] = (p = [])"
| "contains p (c # cs) = (take (length p) (c # cs) = p \<or> contains p cs)"

definition slice :: "string \<Rightarrow> nat \<Rightarrow> nat \<Rightarrow> string" where
  "slice s a b = take (b - a) (drop a s)"

section \<open>Regular expressions\<close>

text \<open>
  The patterns of the program are values of \<open>rx\<close>, and \<open>mt\<close> is a backtracking matcher
  in the manner of Python's \<open>re\<close>: it returns every way to match a pattern at the
  current position, in the order in which backtracking tries them, so the head of the
  list is the match \<open>re\<close> reports.  A matcher state is the offset in the text, the text
  still to be read, and the groups captured so far (latest first).  \<open>Star\<close> is the greedy
  repetition, \<open>LazyStar\<close> the lazy one; an iteration that reads nothing is not repeated.
  \<open>Bol\<close> is \<open>^\<close> and \<open>Eol\<close> is \<open>$\<close> without the MULTILINE flag: \<open>$\<close> holds at the end of
  the text and just before a line feed that ends the text.
\<close>

datatype rx =
    Cls "char \<Rightarrow> bool"
  | Eps
  | Seq rx rx
  | Alt rx rx
  | Star rx
  | LazyStar rx
  | Group nat rx
  | Bol
  | Eol

type_synonym mstate = "nat \<times> string \<times> (nat \<times> string) list"

fun mt :: "rx \<Rightarrow> mstate \<Rightarrow> mstate list" where
  "mt (Cls p) (i, s, g) =
     (case s of [] \<Rightarrow> [] | c # cs \<Rightarrow> if p c then [(Suc i, cs, g)] else [])"
| "mt Eps st = [st]"
| "mt (Seq r1 r2) st = concat (map (mt r2) (mt r1 st))"
| "mt (Alt r1 r2) st = mt r1 st @ mt r2 st"
| "mt (Star r) st =
     concat (map (\<lambda>st'. if length (fst (snd st')) < length (fst (snd st))
                         then mt (Star r) st' else [])
                 (mt r st)) @ [st]"
| "mt (LazyStar r) st =
     st # concat (map (\<lambda>st'. if length (fst (snd st')) < length (fst (snd st))
                              then mt (LazyStar r) st' else [])
                      (mt r st))"
| "mt (Group n r) (i, s, g) =
     map (\<lambda>(i', s', g'). (i', s', (n, take (i' - i) s) # g')) (mt r (i, s, g))"
| "mt Bol (i, s, g) = (if i = 0 then [(i, s, g)] else [])"
| "mt Eol (i, s, g) = (if s = [] \<or> s = [NL] then [(i, s, g)] else [])"

text \<open>Pattern syntax: a literal character, a literal string, a literal string under
  IGNORECASE, a sequence, \<open>r+\<close>, \<open>r+?\<close>, \<open>r?\<close>, \<open>r{n}\<close> and \<open>r{m,n}\<close>.\<close>

definition chr :: "char \<Rightarrow> rx" where
  "chr c = Cls (\<lambda>x. x = c)"

definition oneof :: "string \<Rightarrow> rx" where
  "oneof cs = Cls (\<lambda>x. x \<in> set cs)"

definition lit :: "string \<Rightarrow> rx" where
  "lit s = foldr (\<lambda>c r. Seq (chr c) r) s Eps"

definition lit_ci :: "string \<Rightarrow> rx" where
  "lit_ci s = foldr (\<lambda>c r. Seq (Cls (\<lambda>x. lower_char x = lower_char c)) r) s Eps"

definition seqs :: "rx list \<Rightarrow> rx" where
  "seqs rs = foldr Seq rs Eps"

definition Plus :: "rx \<Rightarrow> rx" where
  "Plus r = Seq r (Star r)"

definition LazyPlus :: "rx \<Rightarrow> rx" where
  "LazyPlus r = Seq r (LazyStar r)"

definition Opt :: "rx \<Rightarrow> rx" where
  "Opt r = Alt r Eps"

fun times :: "nat \<Rightarrow> rx \<Rightarrow> rx" where
  "times 0 r = Eps"
| "times (Suc n) r = Seq r (times n r)"

fun upto_times :: "nat \<Rightarrow> rx \<Rightarrow> rx" where
  "upto_times 0 r = Eps"
| "upto_times (Suc n) r = Opt (Seq r (upto_times n r))"

definition between :: "nat \<Rightarrow> nat \<Rightarrow> rx \<Rightarrow> rx" where
  "between m n r = Seq (times m r) (upto_times (n - m) r)"

fun ngroups :: "rx \<Rightarrow> nat" where
  "ngroups (Seq r1 r2) = ngroups r1 + ngroups r2"
| "ngroups (Alt r1 r2) = ngroups r1 + ngroups r2"
| "ngroups (Star r) = ngroups r"
| "ngroups (LazyStar r) = ngroups r"
| "ngroups (Group n r) = Suc (ngroups r)"
| "ngroups r = 0"

subsection \<open>Match objects and the functions of \<open>re\<close>\<close>

datatype error = IndexError | ValueError

record match =
  m_start :: nat
  m_end :: nat
  m_text :: string
  m_groups :: "(nat \<times> string) list"
  m_count :: nat

definition mk_match :: "rx \<Rightarrow> nat \<Rightarrow> string \<Rightarrow> mstate \<Rightarrow> match" where
  "mk_match r i s st =
     \<lparr>m_start = i, m_end = fst st, m_text = take (fst st - i) s,
      m_groups = snd (snd st), m_count = ngroups r\<rparr>"

text \<open>\<open>m.group(n)\<close>: group 0 is the whole match.  Python raises IndexError for a group
  the pattern does not have and returns \<open>None\<close> for a group that took no part in the
  match; no pattern of this program has a group in an optional part, and the model
  reports every absent group as the error.\<close>

definition group :: "match \<Rightarrow> nat \<Rightarrow> error + string" where
  "group m n =
     (if n = 0 then Inr (m_text m)
      else case map_of (m_groups m) n of Some w \<Rightarrow> Inr w | None \<Rightarrow> Inl IndexError)"

fun collect :: "(error + 'a) list \<Rightarrow> error + 'a list" where
  "collect [] = Inr []"
| "collect (x # xs) =
     (case x of Inl e \<Rightarrow> Inl e
      | Inr v \<Rightarrow> (case collect xs of Inl e \<Rightarrow> Inl e | Inr vs \<Rightarrow> Inr (v # vs)))"

definition groups :: "match \<Rightarrow> error + string list" where
  "groups m = collect (map (group m) [1 ..< Suc (m_count m)])"

definition re_match :: "rx \<Rightarrow> string \<Rightarrow> match option" where
  "re_match r s = (case mt r (0, s, []) of [] \<Rightarrow> None | st # _ \<Rightarrow> Some (mk_match r 0 s st))"

fun search_from :: "rx \<Rightarrow> nat \<Rightarrow> string \<Rightarrow> match option" where
  "search_from r i s =
     (case mt r (i, s, []) of
        st # _ \<Rightarrow> Some (mk_match r i s st)
      | [] \<Rightarrow> (case s of [] \<Rightarrow> None | c # cs \<Rightarrow> search_from r (Suc i) cs))"

definition re_search :: "rx \<Rightarrow> string \<Rightarrow> match option" where
  "re_search r s = search_from r 0 s"

text \<open>\<open>finditer\<close> and \<open>sub\<close> walk the text from left to right and resume after each
  match.  After a match that read nothing they move one character on; no pattern of
  this program matches the empty string.\<close>

fun finditer_from :: "rx \<Rightarrow> nat \<Rightarrow> string \<Rightarrow> match list" where
  "finditer_from r i s =
     (case mt r (i, s, []) of
        st # _ \<Rightarrow>
          mk_match r i s st #
            (if length (fst (snd st)) < length s then finditer_from r (fst st) (fst (snd st))
             else case s of [] \<Rightarrow> [] | c # cs \<Rightarrow> finditer_from r (Suc i) cs)
      | [] \<Rightarrow> (case s of [] \<Rightarrow> [] | c # cs \<Rightarrow> finditer_from r (Suc i) cs))"

definition finditer :: "rx \<Rightarrow> string \<Rightarrow> match list" where
  "finditer r s = finditer_from r 0 s"

fun sub_from :: "rx \<Rightarrow> string \<Rightarrow> nat \<Rightarrow> string \<Rightarrow> string" where
  "sub_from r repl i s =
     (case mt r (i, s, []) of
        st # _ \<Rightarrow>
          repl @
            (if length (fst (snd st)) < length s then sub_from r repl (fst st) (fst (snd st))
             else case s of [] \<Rightarrow> [] | c # cs \<Rightarrow> c # sub_from r repl (Suc i) cs)
      | [] \<Rightarrow> (case s of [] \<Rightarrow> [] | c # cs \<Rightarrow> c # sub_from r repl (Suc i) cs))"

definition re_sub :: "rx \<Rightarrow> string \<Rightarrow> string \<Rightarrow> string" where
  "re_sub r repl s = sub_from r repl 0 s"

section \<open>The pipeline\<close>

text \<open>Partial operations of the source return \<open>error + 'a\<close>; \<open>and_then\<close> passes the
  first error on, as a raised exception would leave the function.\<close>

definition and_then :: "error + 'a \<Rightarrow> ('a \<Rightarrow> error + 'b) \<Rightarrow> error + 'b" where
  "and_then m f = (case m of Inl e \<Rightarrow> Inl e | Inr v \<Rightarrow> f v)"

definition nth_e :: "'a list \<Rightarrow> nat \<Rightarrow> error + 'a" where
  "nth_e xs i = (if i < length xs then Inr (xs ! i) else Inl IndexError)"

text \<open>\<open>max(xs, key=f)\<close>: the first element with the greatest key; ValueError on an
  empty list.\<close>

fun max_by :: "('a \<Rightarrow> int) \<Rightarrow> 'a list \<Rightarrow> error + 'a" where
  "max_by f [] = Inl ValueError"
| "max_by f (x # xs) = Inr (foldl (\<lambda>best y. if f y > f best then y else best) x xs)"

subsection \<open>House number normalization\<close>

definition slashes_pat :: rx where
  "slashes_pat = Plus (chr CHR ''/'')"

definition house_no_pat :: rx where
  "house_no_pat =
     seqs [Bol, Group 1 (Plus (Cls (\<lambda>c. is_digit c \<or> c = CHR ''/''))),
           Group 2 (Opt (Cls is_alpha)), Eol]"

definition normalize_house_no :: "string \<Rightarrow> error + string" where
  "normalize_house_no h =
     (if h = [] then Inr []
      else
        let h1 = replace_char CHR '','' [] (strip h);
            h2 = replace_char CHR ''-'' ''/'' h1;
            h3 = re_sub slashes_pat ''/'' h2
        in case re_match house_no_pat h3 of
             None \<Rightarrow> Inr []
           | Some m \<Rightarrow>
               and_then (groups m) (\<lambda>gs.
                 case gs of [num, suf] \<Rightarrow> Inr (num @ upper suf) | _ \<Rightarrow> Inl ValueError))"

subsection \<open>Parsing helpers\<close>

definition VOTER_ID_PAT :: rx where
  "VOTER_ID_PAT = Group 1 (Seq (between 2 3 (Cls is_upper)) (times 7 (Cls is_digit)))"

definition BAD_NAMES :: "string list" where
  "BAD_NAMES = [''26-VELACHERY'', ''VELACHERY'', ''3-CHENNAI SOUTH'',
                ''CHENNAI SOUTH'', ''ELECTORAL ROLL'', ''ASSEMBLY CONSTITUENCY'']"

definition spaces_pat :: rx where
  "spaces_pat = Plus (Cls is_space)"

definition name_tail_pat :: rx where
  "name_tail_pat =
     seqs [Star (Cls is_space),
           Group 1 (seqs [lit_ci ''Name'', Star (Cls is_space), oneof '':+!'',
                          Star (Cls (\<lambda>c. c \<noteq> NL))])]"

definition clean :: "string \<Rightarrow> string" where
  "clean s =
     (if s = [] then []
      else
        let s1 = strip (rstrip_chars ''-~'' (strip (re_sub spaces_pat '' '' s)));
            s2 = strip (re_sub name_tail_pat [] s1)
        in s2)"

text \<open>The labelled-field patterns of \<open>parse_block\<close>.  None is compiled with a flag: the
  labels are matched as they are spelled.\<close>

definition label_value :: "rx list \<Rightarrow> rx \<Rightarrow> rx" where
  "label_value label val =
     seqs (label @ [Star (Cls is_space), oneof '':+!'', Star (Cls is_space), Group 1 val])"

definition APOS_S :: string where
  "APOS_S = [CHR 0x27, CHR ''s'']"

definition name_pat :: rx where
  "name_pat = label_value [lit ''Name''] (Plus (Cls (\<lambda>c. c \<noteq> NL)))"

definition father_pat :: rx where
  "father_pat =
     label_value [lit ''Father'', Opt (lit APOS_S), lit '' Name''] (Plus (Cls (\<lambda>c. c \<noteq> NL)))"

definition husband_pat :: rx where
  "husband_pat =
     label_value [lit ''Husband'', Opt (lit APOS_S), lit '' Name''] (Plus (Cls (\<lambda>c. c \<noteq> NL)))"

definition mother_pat :: rx where
  "mother_pat =
     label_value [lit ''Mother'', Opt (lit APOS_S), lit '' Name''] (Plus (Cls (\<lambda>c. c \<noteq> NL)))"

definition house_pat :: rx where
  "house_pat =
     label_value [lit ''House'', Star (Cls is_space), lit ''Number'']
       (Plus (Cls (\<lambda>c. c \<noteq> NL \<and> c \<noteq> CHR '' '')))"

definition age_pat :: rx where
  "age_pat = label_value [lit ''Age''] (Plus (Cls is_digit))"

text \<open>The two Tamil gender words, as the UTF-8 code units of the code points
  U+0B86 U+0BA3 U+0BCD and U+0BAA U+0BC6 U+0BA3 U+0BCD.\<close>

definition TAMIL_MALE :: string where
  "TAMIL_MALE = [CHR 0xE0, CHR 0xAE, CHR 0x86, CHR 0xE0, CHR 0xAE, CHR 0xA3,
                 CHR 0xE0, CHR 0xAF, CHR 0x8D]"

definition TAMIL_FEMALE :: string where
  "TAMIL_FEMALE = [CHR 0xE0, CHR 0xAE, CHR 0xAA, CHR 0xE0, CHR 0xAF, CHR 0x86,
                   CHR 0xE0, CHR 0xAE, CHR 0xA3, CHR 0xE0, CHR 0xAF, CHR 0x8D]"

definition gender_pat :: rx where
  "gender_pat =
     label_value [lit ''Gender'']
       (Alt (lit ''Male'') (Alt (lit ''Female'') (Alt (lit TAMIL_MALE) (lit TAMIL_FEMALE))))"

definition leading_digit_pat :: rx where
  "leading_digit_pat = seqs [Bol, Cls is_digit]"

record fields =
  name :: string
  relation_type :: string
  relation_name :: string
  house_number :: string
  age :: string
  gender :: string

text \<open>The five sections of \<open>parse_block\<close>, each from the match objects it reads.\<close>

definition name_field :: "match option \<Rightarrow> error + string" where
  "name_field name_m =
     and_then (case name_m of Some m \<Rightarrow> and_then (group m 1) (\<lambda>w. Inr (clean w))
               | None \<Rightarrow> Inr []) (\<lambda>name0.
     let name1 = (if contains ''NAME'' (upper name0) \<or> CHR ''-'' \<in> set name0
                     \<or> CHR ''='' \<in> set name0 then [] else name0);
         name2 = (if upper name1 \<in> set BAD_NAMES \<or> re_match leading_digit_pat name1 \<noteq> None
                  then [] else name1)
     in Inr name2)"

definition relation_field ::
  "match option \<Rightarrow> match option \<Rightarrow> match option \<Rightarrow> error + (string \<times> string)" where
  "relation_field father_m husband_m mother_m =
     (case father_m of
        Some m \<Rightarrow> and_then (group m 1) (\<lambda>w. Inr (''S/O'', clean w))
      | None \<Rightarrow>
         (case husband_m of
            Some m \<Rightarrow> and_then (group m 1) (\<lambda>w. Inr (''W/O'', clean w))
          | None \<Rightarrow>
             (case mother_m of
                Some m \<Rightarrow> and_then (group m 1) (\<lambda>w. Inr (''C/O'', clean w))
              | None \<Rightarrow> Inr ([], []))))"

definition house_field :: "match option \<Rightarrow> error + string" where
  "house_field house_m =
     (case house_m of
        Some m \<Rightarrow> and_then (group m 1) (\<lambda>w. normalize_house_no (clean w))
      | None \<Rightarrow> Inr [])"

definition gender_field :: "match option \<Rightarrow> error + string" where
  "gender_field gender_m =
     and_then (case gender_m of Some m \<Rightarrow> group m 1 | None \<Rightarrow> Inr []) (\<lambda>gender_raw.
     Inr (if gender_raw = TAMIL_MALE then ''Male''
          else if gender_raw = TAMIL_FEMALE then ''Female''
          else capitalize gender_raw))"

definition age_field :: "match option \<Rightarrow> error + string" where
  "age_field age_m = (case age_m of Some m \<Rightarrow> group m 1 | None \<Rightarrow> Inr [])"

definition parse_block :: "string \<Rightarrow> error + fields" where
  "parse_block block =
     (let name_m = re_search name_pat block;
          father_m = re_search father_pat block;
          husband_m = re_search husband_pat block;
          mother_m = re_search mother_pat block;
          house_m = re_search house_pat block;
          age_m = re_search age_pat block;
          gender_m = re_search gender_pat block
      in
      and_then (name_field name_m) (\<lambda>name_v.
      and_then (relation_field father_m husband_m mother_m) (\<lambda>rel.
      and_then (house_field house_m) (\<lambda>house.
      and_then (gender_field gender_m) (\<lambda>gender_v.
      and_then (age_field age_m) (\<lambda>age_v.
      Inr \<lparr>name = name_v, relation_type = fst rel, relation_name = snd rel,
           house_number = house, age = age_v, gender = gender_v\<rparr>))))))"

definition completeness :: "'a fields_scheme \<Rightarrow> int" where
  "completeness f =
     sum_list (map (\<lambda>v. if v \<noteq> [] then 1 else 0) [name f, age f, gender f, house_number f])"

subsection \<open>Parsing a page\<close>

record voter = fields +
  voter_id :: string
  part_no :: string
  section_name :: string
  page :: int
  constituency :: string
  parliamentary_constituency :: string

definition blanks_pat :: rx where
  "blanks_pat = Plus (Cls (\<lambda>c. c = CHR '' '' \<or> c = TAB))"

definition part_pat :: rx where
  "part_pat = seqs [lit ''Part No.:'', Group 1 (Plus (Cls is_word))]"

definition section_pat :: rx where
  "section_pat =
     seqs [lit ''Section No and Name'', Plus (Cls is_space),
           Group 1 (LazyPlus (Cls (\<lambda>c. c \<noteq> NL))), Alt (chr NL) (lit ''Part No'')]"

definition windows :: "string \<Rightarrow> (nat \<times> string) list \<Rightarrow> nat \<Rightarrow> nat \<Rightarrow> error + (string \<times> string)" where
  "windows text_clean id_positions i pos =
     and_then (if i > 0 then and_then (nth_e id_positions (i - 1)) (\<lambda>p. Inr (fst p))
               else Inr 0) (\<lambda>prev_pos.
     and_then (if i + 1 < length id_positions
               then and_then (nth_e id_positions (i + 1)) (\<lambda>p. Inr (fst p))
               else Inr (length text_clean)) (\<lambda>next_pos.
     Inr (slice text_clean pos next_pos, slice text_clean prev_pos pos)))"

definition candidates :: "string \<Rightarrow> string \<Rightarrow> error + fields list" where
  "candidates after_block before_block =
     collect [parse_block after_block, parse_block before_block,
              parse_block (before_block @ [NL] @ after_block)]"

definition assemble :: "string \<Rightarrow> fields \<Rightarrow> string \<Rightarrow> string \<Rightarrow> int \<Rightarrow> voter" where
  "assemble vid best part sect page_num =
     \<lparr>name = name best, relation_type = relation_type best,
      relation_name = relation_name best, house_number = house_number best,
      age = age best, gender = gender best,
      voter_id = vid, part_no = part, section_name = sect, page = page_num,
      constituency = ''26-VELACHERY'', parliamentary_constituency = ''3-CHENNAI SOUTH''\<rparr>"

definition parse_anchor ::
  "string \<Rightarrow> (nat \<times> string) list \<Rightarrow> string \<Rightarrow> string \<Rightarrow> int \<Rightarrow> nat \<times> (nat \<times> string) \<Rightarrow> error + voter" where
  "parse_anchor text_clean id_positions part sect page_num e =
     (case e of (i, (pos, vid)) \<Rightarrow>
        and_then (windows text_clean id_positions i pos) (\<lambda>(after_block, before_block).
        and_then (candidates after_block before_block) (\<lambda>cs.
        and_then (max_by completeness cs) (\<lambda>best.
        Inr (assemble vid best part sect page_num)))))"

definition id_positions_of :: "string \<Rightarrow> (nat \<times> string) list" where
  "id_positions_of text_clean =
     map (\<lambda>m. (m_start m, m_text m)) (finditer VOTER_ID_PAT text_clean)"

definition parse_page :: "string \<Rightarrow> int \<Rightarrow> error + voter list" where
  "parse_page text page_num =
     (let text_clean = re_sub blanks_pat '' '' text;
          part_m = re_search part_pat text_clean;
          section_m = re_search section_pat text_clean
      in
      and_then (case part_m of Some m \<Rightarrow> group m 1 | None \<Rightarrow> Inr []) (\<lambda>part.
      and_then (case section_m of Some m \<Rightarrow> and_then (group m 1) (\<lambda>w. Inr (clean w))
                | None \<Rightarrow> Inr []) (\<lambda>sect.
      let id_positions = id_positions_of text_clean
      in collect (map (parse_anchor text_clean id_positions part sect page_num)
                      (enumerate 0 id_positions)))))"

subsection \<open>Cleaning and deduplication\<close>

text \<open>A page of the document is its number and its text.  Of \<open>json_to_csv\<close> the model
  keeps the rows it hands to the writers: the raw rows, the cleaned rows, and the count
  it returns.\<close>

record page_rec =
  p_page :: int
  p_text :: string

record outputs =
  raw_rows :: "voter list"
  clean_rows :: "voter list"
  total :: int

fun cleaning :: "voter list \<Rightarrow> voter list \<Rightarrow> (string \<times> string) set \<Rightarrow> voter list" where
  "cleaning [] cleaned seen = cleaned"
| "cleaning (row # rows) cleaned seen =
     (let name_v = strip (name row);
          house = strip (house_number row)
      in if name_v = [] \<or> house = [] then cleaning rows cleaned seen
         else let key = (upper name_v, house)
              in if key \<in> seen then cleaning rows cleaned seen
                 else cleaning rows (cleaned @ [row]) (insert key seen))"

definition all_voters :: "page_rec list \<Rightarrow> error + voter list" where
  "all_voters pages =
     and_then (collect (map (\<lambda>p. parse_page (p_text p) (p_page p)) pages))
       (\<lambda>vs. Inr (concat vs))"

definition json_to_csv :: "page_rec list \<Rightarrow> error + outputs" where
  "json_to_csv pages =
     and_then (all_voters pages) (\<lambda>rows.
       let cleaned = cleaning rows [] {}
       in Inr \<lparr>raw_rows = rows, clean_rows = cleaned, total = int (length cleaned)\<rparr>)"

section \<open>The documents of the examples\<close>

definition page1_text :: string where
  "page1_text = ''Part No.:12 Section No and Name Ward 5 Part No.:12 AB1234567 Name:RAMESH KUMAR Age:34 Gender:Male House Number:45A''"

definition page2_text :: string where
  "page2_text = ''CD7654321 Name:RAMESH KUMAR Age:34 Gender:Male House Number:45A''"

definition scenario :: "page_rec list" where
  "scenario = [\<lparr>p_page = 1, p_text = page1_text\<rparr>, \<lparr>p_page = 2, p_text = page2_text\<rparr>]"

definition rest_of_line :: string where
  "rest_of_line = ''RAMESH KUMAR Age:34 Gender:Male House Number:45A''"

definition row1 :: voter where
  "row1 = \<lparr>name = rest_of_line, relation_type = [], relation_name = [],
           house_number = ''45A'', age = ''34'', gender = ''Male'',
           voter_id = ''AB1234567'', part_no = ''12'', section_name = ''Ward 5'', page = 1,
           constituency = ''26-VELACHERY'',
           parliamentary_constituency = ''3-CHENNAI SOUTH''\<rparr>"

definition row2 :: voter where
  "row2 = \<lparr>name = rest_of_line, relation_type = [], relation_name = [],
           house_number = ''45A'', age = ''34'', gender = ''Male'',
           voter_id = ''CD7654321'', part_no = [], section_name = [], page = 2,
           constituency = ''26-VELACHERY'',
           parliamentary_constituency = ''3-CHENNAI SOUTH''\<rparr>"

definition row0 :: voter where
  "row0 = \<lparr>name = ''RAMESH KUMAR'', relation_type = [], relation_name = [],
           house_number = [], age = ''34'', gender = ''Male'',
           voter_id = ''EF1111111'', part_no = ''12'', section_name = ''Ward 5'', page = 1,
           constituency = ''26-VELACHERY'',
           parliamentary_constituency = ''3-CHENNAI SOUTH''\<rparr>"

definition no_fields :: fields where
  "no_fields = \<lparr>name = [], relation_type = [], relation_name = [],
                 house_number = [], age = [], gender = []\<rparr>"

definition labels_text :: string where
  "labels_text = ''Father Name: RAJAN'' @ [NL] @ ''House Number: 45A Age: 34 Gender: Male''"

definition tie_text :: string where
  "tie_text = ''Name:Y AB1234567 Name:X''"

definition tie_row :: voter where
  "tie_row = \<lparr>name = ''X'', relation_type = [], relation_name = [],
              house_number = [], age = [], gender = [],
              voter_id = ''AB1234567'', part_no = [], section_name = [], page = 1,
              constituency = ''26-VELACHERY'',
              parliamentary_constituency = ''3-CHENNAI SOUTH''\<rparr>"

section \<open>Notions of the specification\<close>

text \<open>The definitions of this section are not translations of code: they say in HOL
  what the specification says in words, to be compared with the functions above.\<close>

subsection \<open>Cleaning\<close>

text \<open>A row is complete when its trimmed name and trimmed house number are not empty;
  its key is the upper-cased trimmed name with the trimmed house number; a row is the
  first of its key when no complete row before it has the same key.  The specified
  cleaned output is the rows at the positions of the complete rows that are the first
  of their key, in the order of the input.\<close>

definition complete_row :: "voter \<Rightarrow> bool" where
  "complete_row v \<longleftrightarrow> strip (name v) \<noteq> [] \<and> strip (house_number v) \<noteq> []"

definition row_key :: "voter \<Rightarrow> string \<times> string" where
  "row_key v = (upper (strip (name v)), strip (house_number v))"

definition first_of_key :: "voter list \<Rightarrow> nat \<Rightarrow> bool" where
  "first_of_key rows i \<longleftrightarrow>
     (\<forall>j<i. complete_row (rows ! j) \<longrightarrow> row_key (rows ! j) \<noteq> row_key (rows ! i))"

definition cleaned_spec :: "voter list \<Rightarrow> voter list" where
  "cleaned_spec rows =
     nths rows {i. i < length rows \<and> complete_row (rows ! i) \<and> first_of_key rows i}"

subsection \<open>Windows\<close>

text \<open>The windows of the anchor number \<open>i\<close> of a page, in terms of the offsets of the
  anchors.\<close>

definition after_window :: "string \<Rightarrow> (nat \<times> string) list \<Rightarrow> nat \<Rightarrow> string" where
  "after_window t ids i =
     slice t (fst (ids ! i)) (if i + 1 < length ids then fst (ids ! (i + 1)) else length t)"

definition before_window :: "string \<Rightarrow> (nat \<times> string) list \<Rightarrow> nat \<Rightarrow> string" where
  "before_window t ids i =
     slice t (if 0 < i then fst (ids ! (i - 1)) else 0) (fst (ids ! i))"

subsection \<open>Texts read by a pattern\<close>

text \<open>A pattern reads \<open>w\<close> when the matcher, started on a text that begins with \<open>w\<close>,
  has a result that stops after \<open>w\<close>.\<close>

definition reads :: "rx \<Rightarrow> string \<Rightarrow> bool" where
  "reads r w \<longleftrightarrow> (\<exists>i s g st'. st' \<in> set (mt r (i, w @ s, g)) \<and> fst (snd st') = s)"

definition all_space :: "string \<Rightarrow> bool" where
  "all_space w \<longleftrightarrow> (\<forall>c \<in> set w. is_space c)"

text \<open>The groups that every match of a pattern has captured.\<close>

fun must_groups :: "rx \<Rightarrow> nat set" where
  "must_groups (Group n r) = insert n (must_groups r)"
| "must_groups (Seq r1 r2) = must_groups r1 \<union> must_groups r2"
| "must_groups (Alt r1 r2) = must_groups r1 \<inter> must_groups r2"
| "must_groups r = {}"

subsection \<open>House numbers\<close>

text \<open>The shape of a normalized house number: digits and slashes, at least one, with at
  most one upper-case letter after them; the shape the validation accepts: the same
  with a letter of either case; and the text the validation is applied to.\<close>

definition house_chars :: "string \<Rightarrow> bool" where
  "house_chars w \<longleftrightarrow> w \<noteq> [] \<and> (\<forall>c \<in> set w. is_digit c \<or> c = CHR ''/'')"

definition house_shape :: "string \<Rightarrow> bool" where
  "house_shape w \<longleftrightarrow>
     house_chars w \<or> (w \<noteq> [] \<and> is_upper (last w) \<and> house_chars (butlast w))"

definition house_valid :: "string \<Rightarrow> bool" where
  "house_valid w \<longleftrightarrow>
     house_chars w \<or> (w \<noteq> [] \<and> is_alpha (last w) \<and> house_chars (butlast w))"

definition house_prepared :: "string \<Rightarrow> string" where
  "house_prepared raw =
     re_sub slashes_pat ''/'' (replace_char CHR ''-'' ''/'' (replace_char CHR '','' [] (strip raw)))"


subsection \<open>Labelled fields\<close>

text \<open>A match of a labelled-field pattern in a window is \<open>labelled lab val\<close> when the
  window has, from the start of the match on, a label that is one of \<open>lab\<close>, optional
  white space, one of the separators \<open>:\<close>, \<open>+\<close> and \<open>!\<close>, optional white space, and a value
  that is one of \<open>val\<close> and is the first group of the match.  There follow the values
  and the labels of the seven fields.\<close>

definition labelled :: "(string \<Rightarrow> bool) \<Rightarrow> (string \<Rightarrow> bool) \<Rightarrow> string \<Rightarrow> match \<Rightarrow> bool" where
  "labelled lab val block m \<longleftrightarrow>
     (\<exists>pre lbl ws1 c ws2 v post.
        block = pre @ lbl @ ws1 @ [c] @ ws2 @ v @ post \<and> m_start m = length pre
      \<and> lab lbl \<and> all_space ws1 \<and> c \<in> set '':+!'' \<and> all_space ws2 \<and> val v
      \<and> group m 1 = Inr v)"

definition line_text :: "string \<Rightarrow> bool" where
  "line_text v \<longleftrightarrow> v \<noteq> [] \<and> NL \<notin> set v"

definition word_text :: "string \<Rightarrow> bool" where
  "word_text v \<longleftrightarrow> v \<noteq> [] \<and> NL \<notin> set v \<and> CHR '' '' \<notin> set v"

definition digits_text :: "string \<Rightarrow> bool" where
  "digits_text v \<longleftrightarrow> v \<noteq> [] \<and> (\<forall>c \<in> set v. is_digit c)"

definition gender_token :: "string \<Rightarrow> bool" where
  "gender_token v \<longleftrightarrow> v \<in> set [''Male'', ''Female'', TAMIL_MALE, TAMIL_FEMALE]"

definition relation_label :: "string \<Rightarrow> string \<Rightarrow> bool" where
  "relation_label rel l \<longleftrightarrow> l = rel @ '' Name'' \<or> l = rel @ APOS_S @ '' Name''"

definition house_label :: "string \<Rightarrow> bool" where
  "house_label l \<longleftrightarrow> (\<exists>ws. all_space ws \<and> l = ''House'' @ ws @ ''Number'')"

subsection \<open>Selection\<close>

text \<open>The position \<open>k\<close> is the earliest maximum of \<open>f\<close> in \<open>xs\<close> when no element has a
  greater value and every element before it has a smaller one; and the score of a
  record as the specification counts it.\<close>

definition earliest_max :: "('a \<Rightarrow> int) \<Rightarrow> 'a list \<Rightarrow> nat \<Rightarrow> bool" where
  "earliest_max f xs k \<longleftrightarrow>
     k < length xs \<and> (\<forall>j \<in> set [0 ..< length xs]. f (xs ! j) \<le> f (xs ! k))
   \<and> (\<forall>j \<in> set [0 ..< k]. f (xs ! j) < f (xs ! k))"

definition score_spec :: "'a fields_scheme \<Rightarrow> int" where
  "score_spec f = int (length (filter (\<lambda>v. v \<noteq> []) [name f, age f, gender f, house_number f]))"

subsection \<open>Normalized text\<close>

text \<open>A text is single-spaced when its only white space is the space and no two spaces
  are adjacent.  There follow three notions about patterns: a pattern without \<open>$\<close>; a
  matcher state with more text appended; and a pattern whose first match, on a text with
  no line feed, reads the text to its end.\<close>

fun single_spaced :: "string \<Rightarrow> bool" where
  "single_spaced [] = True"
| "single_spaced [c] = (is_space c \<longrightarrow> c = CHR '' '')"
| "single_spaced (c # d # cs) =
     ((is_space c \<longrightarrow> c = CHR '' '' \<and> \<not> is_space d) \<and> single_spaced (d # cs))"

fun no_eol :: "rx \<Rightarrow> bool" where
  "no_eol Eol = False"
| "no_eol (Seq r1 r2) = (no_eol r1 \<and> no_eol r2)"
| "no_eol (Alt r1 r2) = (no_eol r1 \<and> no_eol r2)"
| "no_eol (Star r) = no_eol r"
| "no_eol (LazyStar r) = no_eol r"
| "no_eol (Group n r) = no_eol r"
| "no_eol r = True"

definition ext :: "string \<Rightarrow> mstate \<Rightarrow> mstate" where
  "ext v st = (fst st, fst (snd st) @ v, snd (snd st))"

definition eats_all :: "rx \<Rightarrow> bool" where
  "eats_all r \<longleftrightarrow>
     (\<forall>i s g. NL \<notin> set s \<longrightarrow> mt r (i, s, g) = [] \<or> fst (snd (hd (mt r (i, s, g)))) = [])"

subsection \<open>Windows with a labelled value\<close>

text \<open>A window has a labelled value when it contains a label that is one of \<open>lab\<close>,
  optional white space, one of the separators, optional white space and a value that is
  one of \<open>val\<close>.  A pattern accepts a text when the matcher, at any offset and before any
  other text, has a result that stops after it.\<close>

definition has_labelled :: "(string \<Rightarrow> bool) \<Rightarrow> (string \<Rightarrow> bool) \<Rightarrow> string \<Rightarrow> bool" where
  "has_labelled lab val block \<longleftrightarrow>
     (\<exists>pre lbl ws1 c ws2 v post.
        block = pre @ lbl @ ws1 @ [c] @ ws2 @ v @ post
      \<and> lab lbl \<and> all_space ws1 \<and> c \<in> set '':+!'' \<and> all_space ws2 \<and> val v)"

definition accepts :: "rx \<Rightarrow> string \<Rightarrow> bool" where
  "accepts r w \<longleftrightarrow> (\<forall>i s g. (i + length w, s, g) \<in> set (mt r (i, w @ s, g)))"

section \<open>Properties\<close>

subsection \<open>The matcher\<close>

text \<open>The equations of the two repetitions rewrite their own right-hand sides; they are
  applied one step at a time.\<close>

declare mt.simps(5,6) [simp del]

lemma mt_Star_unfold:
  "mt (Star r) st =
     concat (map (\<lambda>st'. if length (fst (snd st')) < length (fst (snd st))
                         then mt (Star r) st' else [])
                 (mt r st)) @ [st]"
  by (rule mt.simps)

lemma mt_LazyStar_unfold:
  "mt (LazyStar r) st =
     st # concat (map (\<lambda>st'. if length (fst (snd st')) < length (fst (snd st))
                              then mt (LazyStar r) st' else [])
                      (mt r st))"
  by (rule mt.simps)

lemma mt_consumed:
  "st' \<in> set (mt r st) \<Longrightarrow>
     \<exists>w. fst (snd st) = w @ fst (snd st') \<and> fst st' = fst st + length w"
proof (induction r st arbitrary: st' rule: mt.induct)
  case (1 p i s g)
  then show ?case by (auto split: list.splits if_splits)
next
  case (2 st)
  then show ?case by simp
next
  case (3 r1 r2 st)
  from "3.prems" obtain st1 where a: "st1 \<in> set (mt r1 st)" and b: "st' \<in> set (mt r2 st1)"
    by auto
  from "3.IH"(1)[OF a] obtain w1 where w1: "fst (snd st) = w1 @ fst (snd st1)" "fst st1 = fst st + length w1"
    by blast
  from "3.IH"(2)[OF a b] obtain w2 where w2: "fst (snd st1) = w2 @ fst (snd st')" "fst st' = fst st1 + length w2"
    by blast
  show ?case
    by (rule exI[of _ "w1 @ w2"]) (simp add: w1 w2)
next
  case (4 r1 r2 st)
  from "4.prems" have "st' \<in> set (mt r1 st) \<or> st' \<in> set (mt r2 st)" by simp
  then show ?case using "4.IH" by blast
next
  case (5 r st)
  show ?case
  proof (cases "st' = st")
    case True
    then show ?thesis by simp
  next
    case False
    with "5.prems" obtain st1 where a: "st1 \<in> set (mt r st)"
      and l: "length (fst (snd st1)) < length (fst (snd st))"
      and b: "st' \<in> set (mt (Star r) st1)"
      by (subst (asm) mt_Star_unfold) (auto split: if_splits)
    from "5.IH"(1)[OF a] obtain w1 where w1: "fst (snd st) = w1 @ fst (snd st1)" "fst st1 = fst st + length w1"
      by blast
    from "5.IH"(2)[OF a l b] obtain w2 where w2: "fst (snd st1) = w2 @ fst (snd st')" "fst st' = fst st1 + length w2"
      by blast
    show ?thesis
      by (rule exI[of _ "w1 @ w2"]) (simp add: w1 w2)
  qed
next
  case (6 r st)
  show ?case
  proof (cases "st' = st")
    case True
    then show ?thesis by simp
  next
    case False
    with "6.prems" obtain st1 where a: "st1 \<in> set (mt r st)"
      and l: "length (fst (snd st1)) < length (fst (snd st))"
      and b: "st' \<in> set (mt (LazyStar r) st1)"
      by (subst (asm) mt_LazyStar_unfold) (auto split: if_splits)
    from "6.IH"(1)[OF a] obtain w1 where w1: "fst (snd st) = w1 @ fst (snd st1)" "fst st1 = fst st + length w1"
      by blast
    from "6.IH"(2)[OF a l b] obtain w2 where w2: "fst (snd st1) = w2 @ fst (snd st')" "fst st' = fst st1 + length w2"
      by blast
    show ?thesis
      by (rule exI[of _ "w1 @ w2"]) (simp add: w1 w2)
  qed
next
  case (7 n r i s g)
  then show ?case by fastforce
next
  case (8 i s g)
  then show ?case by (auto split: if_splits)
next
  case (9 i s g)
  then show ?case by (auto split: if_splits)
qed

lemma rev_upt_Suc_Suc: "rev [0 ..< Suc (Suc n)] = map Suc (rev [0 ..< Suc n]) @ [0]"
proof -
  have "[0 ..< Suc (Suc n)] = 0 # [Suc 0 ..< Suc (Suc n)]"
    by (rule upt_conv_Cons) simp
  also have "[Suc 0 ..< Suc (Suc n)] = map Suc [0 ..< Suc n]"
    by (simp only: map_Suc_upt)
  finally show ?thesis by (simp only: rev.simps rev_map)
qed

lemma mt_star_cls:
  "mt (Star (Cls p)) (i, s, g) =
     map (\<lambda>k. (i + k, drop k s, g)) (rev [0 ..< Suc (length (takeWhile p s))])"
proof (induction s arbitrary: i)
  case Nil
  show ?case by (subst mt_Star_unfold) simp
next
  case (Cons c cs)
  show ?case
  proof (cases "p c")
    case True
    have "mt (Star (Cls p)) (i, c # cs, g) = mt (Star (Cls p)) (Suc i, cs, g) @ [(i, c # cs, g)]"
      using True by (subst mt_Star_unfold) simp
    also have "\<dots> = map (\<lambda>k. (Suc i + k, drop k cs, g)) (rev [0 ..< Suc (length (takeWhile p cs))])
                     @ [(i, c # cs, g)]"
      by (simp only: Cons)
    also have "\<dots> = map (\<lambda>k. (i + k, drop k (c # cs), g))
                        (map Suc (rev [0 ..< Suc (length (takeWhile p cs))]) @ [0])"
      by (simp add: o_def)
    also have "\<dots> = map (\<lambda>k. (i + k, drop k (c # cs), g))
                        (rev [0 ..< Suc (length (takeWhile p (c # cs)))])"
    proof -
      have "length (takeWhile p (c # cs)) = Suc (length (takeWhile p cs))"
        using True by simp
      then show ?thesis by (simp only: rev_upt_Suc_Suc)
    qed
    finally show ?thesis .
  next
    case False
    then show ?thesis by (subst mt_Star_unfold) simp
  qed
qed

lemma mt_lit:
  "mt (lit l) (i, s, g) =
     (if take (length l) s = l then [(i + length l, drop (length l) s, g)] else [])"
proof (induction l arbitrary: i s)
  case Nil
  show ?case by (simp add: lit_def)
next
  case (Cons c l)
  have u: "lit (c # l) = Seq (chr c) (lit l)" by (simp add: lit_def)
  show ?case
    by (cases s) (auto simp: u chr_def Cons)
qed

subsection \<open>Error results\<close>

lemma and_then_Inr: "and_then m f = Inr y \<longleftrightarrow> (\<exists>x. m = Inr x \<and> f x = Inr y)"
  by (cases m) (simp_all add: and_then_def)

lemma and_then_simps [simp]:
  "and_then (Inr x) f = f x" "and_then (Inl e) f = Inl e"
  by (simp_all add: and_then_def)

lemma collect_map_Inr_id: "collect (map Inr ys) = Inr ys"
  by (induction ys) simp_all

lemma collect_InrD: "collect xs = Inr ys \<Longrightarrow> xs = map Inr ys"
proof (induction xs arbitrary: ys)
  case Nil
  then show ?case by simp
next
  case (Cons x xs)
  then show ?case by (auto split: sum.splits)
qed

lemma collect_Inr: "collect xs = Inr ys \<longleftrightarrow> xs = map Inr ys"
  using collect_InrD collect_map_Inr_id by blast

lemma collect_map_Inr:
  assumes "collect (map f xs) = Inr ys"
  shows "length ys = length xs" and "\<And>i. i < length xs \<Longrightarrow> f (xs ! i) = Inr (ys ! i)"
proof -
  from assms have e: "map f xs = map Inr ys" by (simp add: collect_Inr)
  then show l: "length ys = length xs" by (metis length_map)
  fix i assume "i < length xs"
  with e l show "f (xs ! i) = Inr (ys ! i)" by (metis nth_map)
qed

subsection \<open>Groups and sequences\<close>

lemma mt_nogroups:
  "st' \<in> set (mt r st) \<Longrightarrow> ngroups r = 0 \<Longrightarrow> snd (snd st') = snd (snd st)"
proof (induction r st arbitrary: st' rule: mt.induct)
  case (1 p i s g)
  then show ?case by (auto split: list.splits if_splits)
next
  case (2 st)
  then show ?case by simp
next
  case (3 r1 r2 st)
  from "3.prems" obtain st1 where a: "st1 \<in> set (mt r1 st)" and b: "st' \<in> set (mt r2 st1)"
    by auto
  from "3.prems" have n: "ngroups r1 = 0" "ngroups r2 = 0" by simp_all
  from "3.IH"(1)[OF a n(1)] "3.IH"(2)[OF a b n(2)] show ?case by simp
next
  case (4 r1 r2 st)
  from "4.prems" have "st' \<in> set (mt r1 st) \<or> st' \<in> set (mt r2 st)" by simp
  moreover from "4.prems" have "ngroups r1 = 0" "ngroups r2 = 0" by simp_all
  ultimately show ?case using "4.IH" by blast
next
  case (5 r st)
  show ?case
  proof (cases "st' = st")
    case True
    then show ?thesis by simp
  next
    case False
    with "5.prems" obtain st1 where a: "st1 \<in> set (mt r st)"
      and l: "length (fst (snd st1)) < length (fst (snd st))"
      and b: "st' \<in> set (mt (Star r) st1)"
      by (subst (asm) mt_Star_unfold) (auto split: if_splits)
    from "5.prems" have n: "ngroups r = 0" by simp
    from "5.IH"(1)[OF a n] "5.IH"(2)[OF a l b] "5.prems"(2) show ?thesis by simp
  qed
next
  case (6 r st)
  show ?case
  proof (cases "st' = st")
    case True
    then show ?thesis by simp
  next
    case False
    with "6.prems" obtain st1 where a: "st1 \<in> set (mt r st)"
      and l: "length (fst (snd st1)) < length (fst (snd st))"
      and b: "st' \<in> set (mt (LazyStar r) st1)"
      by (subst (asm) mt_LazyStar_unfold) (auto split: if_splits)
    from "6.prems" have n: "ngroups r = 0" by simp
    from "6.IH"(1)[OF a n] "6.IH"(2)[OF a l b] "6.prems"(2) show ?thesis by simp
  qed
next
  case (7 n r i s g)
  then show ?case by simp
next
  case (8 i s g)
  then show ?case by (auto split: if_splits)
next
  case (9 i s g)
  then show ?case by (auto split: if_splits)
qed

lemma seqs_simps [simp]: "seqs [] = Eps" "seqs (r # rs) = Seq r (seqs rs)"
  by (simp_all add: seqs_def)

lemma mt_Eps_fun: "mt Eps = (\<lambda>st. [st])"
  by (rule ext) simp

lemma mt_Seq_Eps [simp]: "mt (Seq r Eps) st = mt r st"
  by (simp add: mt_Eps_fun)

lemma concat_map_concat_map:
  "concat (map (\<lambda>a. concat (map f (g a))) xs) = concat (map f (concat (map g xs)))"
  by (induction xs) simp_all

lemma mt_seqs_append:
  "mt (seqs (xs @ ys)) st = concat (map (mt (seqs ys)) (mt (seqs xs) st))"
proof (induction xs arbitrary: st)
  case Nil
  show ?case by simp
next
  case (Cons x xs)
  have "mt (seqs (xs @ ys)) = (\<lambda>a. concat (map (mt (seqs ys)) (mt (seqs xs) a)))"
    by (rule ext) (rule Cons)
  then have "concat (map (mt (seqs (xs @ ys))) (mt x st))
      = concat (map (\<lambda>a. concat (map (mt (seqs ys)) (mt (seqs xs) a))) (mt x st))"
    by (rule arg_cong)
  also have "\<dots> = concat (map (mt (seqs ys)) (concat (map (mt (seqs xs)) (mt x st))))"
    by (rule concat_map_concat_map)
  finally show ?case by simp
qed

lemma ngroups_lit [simp]: "ngroups (lit l) = 0"
  by (induction l) (simp_all add: lit_def chr_def)

lemma ngroups_lit_ci [simp]: "ngroups (lit_ci l) = 0"
  by (induction l) (simp_all add: lit_ci_def)

lemma ngroups_seqs [simp]: "ngroups (seqs rs) = sum_list (map ngroups rs)"
  by (induction rs) simp_all

lemma ngroups_misc [simp]:
  "ngroups (Plus r) = 0 \<longleftrightarrow> ngroups r = 0" "ngroups (LazyPlus r) = 0 \<longleftrightarrow> ngroups r = 0"
  "ngroups (Opt r) = ngroups r" "ngroups (chr c) = 0" "ngroups (oneof cs) = 0"
  by (simp_all add: Plus_def LazyPlus_def Opt_def chr_def oneof_def)

subsection \<open>Texts read by a pattern\<close>

lemma readsI: "st' \<in> set (mt r (i, s, g)) \<Longrightarrow> \<exists>w. s = w @ fst (snd st') \<and> fst st' = i + length w \<and> reads r w"
proof -
  assume a: "st' \<in> set (mt r (i, s, g))"
  from mt_consumed[OF a] obtain w where w: "s = w @ fst (snd st')" "fst st' = i + length w"
    by auto
  with a have "reads r w" unfolding reads_def by metis
  with w show ?thesis by blast
qed

lemma reads_Cls: "reads (Cls p) w \<Longrightarrow> \<exists>c. w = [c] \<and> p c"
  by (auto simp: reads_def split: list.splits if_splits)


lemma reads_Eps: "reads Eps w \<Longrightarrow> w = []"
  by (auto simp: reads_def)

lemma reads_Seq: "reads (Seq a b) w \<Longrightarrow> \<exists>u v. w = u @ v \<and> reads a u \<and> reads b v"
proof -
  assume "reads (Seq a b) w"
  then obtain i s g st' st1 where
    a: "st1 \<in> set (mt a (i, w @ s, g))" and b: "st' \<in> set (mt b st1)" and s: "fst (snd st') = s"
    by (auto simp: reads_def)
  obtain i1 s1 g1 where st1: "st1 = (i1, s1, g1)" by (cases st1)
  from readsI[OF a] obtain u where u: "w @ s = u @ s1" "reads a u" by (auto simp: st1)
  from readsI[OF b[unfolded st1]] s obtain v where v: "s1 = v @ s" "reads b v" by auto
  from u v have "w = u @ v" by simp
  with u v show ?thesis by blast
qed

lemma reads_Alt: "reads (Alt a b) w \<Longrightarrow> reads a w \<or> reads b w"
proof -
  assume "reads (Alt a b) w"
  then obtain i s g st' where
    m: "st' \<in> set (mt (Alt a b) (i, w @ s, g))" and s: "fst (snd st') = s"
    unfolding reads_def by blast
  from m have "st' \<in> set (mt a (i, w @ s, g)) \<or> st' \<in> set (mt b (i, w @ s, g))" by simp
  with s show ?thesis unfolding reads_def by blast
qed

lemma reads_Group: "reads (Group n r) w \<Longrightarrow> reads r w"
proof -
  assume "reads (Group n r) w"
  then obtain i s g st' where
    m: "st' \<in> set (mt (Group n r) (i, w @ s, g))" and s: "fst (snd st') = s"
    unfolding reads_def by blast
  from m obtain st1 where a: "st1 \<in> set (mt r (i, w @ s, g))" and b: "fst (snd st') = fst (snd st1)"
    by (auto simp: case_prod_beta)
  from a b s show ?thesis unfolding reads_def by metis
qed

lemma reads_lit: "reads (lit l) w \<Longrightarrow> w = l"
proof -
  assume "reads (lit l) w"
  then obtain i s g st' where
    m: "st' \<in> set (mt (lit l) (i, w @ s, g))" and s: "fst (snd st') = s"
    unfolding reads_def by blast
  from m have t: "take (length l) (w @ s) = l" and st: "st' = (i + length l, drop (length l) (w @ s), g)"
    by (simp_all add: mt_lit split: if_splits)
  from st s have d: "drop (length l) (w @ s) = s" by simp
  have "length (take (length l) (w @ s)) = min (length (w @ s)) (length l)" by simp
  with t have "length l \<le> length (w @ s)" by simp
  moreover from d have "length (w @ s) - length l = length s" by (metis length_drop)
  ultimately have "length l = length w" by simp
  with t show ?thesis by simp
qed

lemma reads_Star_Cls: "reads (Star (Cls p)) w \<Longrightarrow> \<forall>c \<in> set w. p c"
proof -
  assume "reads (Star (Cls p)) w"
  then obtain i s g st' where
    m: "st' \<in> set (mt (Star (Cls p)) (i, w @ s, g))" and s: "fst (snd st') = s"
    unfolding reads_def by blast
  from m obtain k where k: "k \<le> length (takeWhile p (w @ s))" and st: "st' = (i + k, drop k (w @ s), g)"
    by (auto simp: mt_star_cls)
  from st s have d: "drop k (w @ s) = s" by simp
  have "length (takeWhile p (w @ s)) \<le> length (w @ s)" by (rule length_takeWhile_le)
  with k have "k \<le> length (w @ s)" by simp
  moreover from d have "length (w @ s) - k = length s" by (metis length_drop)
  ultimately have kw: "k = length w" by simp
  have "takeWhile p (w @ s) @ dropWhile p (w @ s) = w @ s" by simp
  then have "take k (takeWhile p (w @ s)) = take k (w @ s)"
    using k by (metis append_eq_conv_conj take_all_iff take_append takeWhile_dropWhile_id min.absorb1 take_take)
  with kw have "w = take k (takeWhile p (w @ s))" by simp
  then have "set w \<subseteq> set (takeWhile p (w @ s))" by (metis set_take_subset)
  then show ?thesis by (meson set_takeWhileD subsetD)
qed

lemma reads_Plus_Cls: "reads (Plus (Cls p)) w \<Longrightarrow> w \<noteq> [] \<and> (\<forall>c \<in> set w. p c)"
proof -
  assume "reads (Plus (Cls p)) w"
  then obtain u v where "w = u @ v" "reads (Cls p) u" "reads (Star (Cls p)) v"
    unfolding Plus_def using reads_Seq by blast
  then show ?thesis using reads_Cls[of p u] reads_Star_Cls[of p v] by auto
qed

lemma reads_Opt: "reads (Opt r) w \<Longrightarrow> reads r w \<or> w = []"
  unfolding Opt_def using reads_Alt reads_Eps by blast

subsection \<open>Labelled values\<close>

lemma mt_step:
  assumes "(i', s', g') \<in> set (mt r (i, s, g))" and "ngroups r = 0"
  shows "\<exists>w. reads r w \<and> s = w @ s' \<and> i' = i + length w \<and> g' = g"
proof -
  from readsI[OF assms(1)] obtain w where
    w: "s = w @ s'" "i' = i + length w" "reads r w" by auto
  from mt_nogroups[OF assms] have "g' = g" by simp
  with w show ?thesis by blast
qed

lemma mt_Group_step:
  assumes "(i', s', g') \<in> set (mt (Group n r) (i, s, g))" and "ngroups r = 0"
  shows "\<exists>w. reads r w \<and> s = w @ s' \<and> i' = i + length w \<and> g' = (n, w) # g"
proof -
  from assms(1) obtain g1 where
    a: "(i', s', g1) \<in> set (mt r (i, s, g))" and st: "g' = (n, take (i' - i) s) # g1"
    by auto
  from mt_step[OF a assms(2)] obtain w where
    w: "reads r w" "s = w @ s'" "i' = i + length w" "g1 = g" by auto
  then have "take (i' - i) s = w" by simp
  with st w show ?thesis by auto
qed

lemma reads_spaces: "reads (Star (Cls is_space)) w \<Longrightarrow> all_space w"
  unfolding all_space_def by (rule reads_Star_Cls)

lemma reads_oneof: "reads (oneof cs) w \<Longrightarrow> \<exists>c. w = [c] \<and> c \<in> set cs"
  unfolding oneof_def by (drule reads_Cls) simp

lemma mt_Seq_mem:
  "st' \<in> set (mt (Seq a b) st) \<longleftrightarrow> (\<exists>st1 \<in> set (mt a st). st' \<in> set (mt b st1))"
  by simp

lemma mt_seqs_append_mem:
  "st' \<in> set (mt (seqs (xs @ ys)) st) \<longleftrightarrow>
     (\<exists>st1 \<in> set (mt (seqs xs) st). st' \<in> set (mt (seqs ys) st1))"
  by (simp only: mt_seqs_append set_concat set_map) blast

lemma mt_label_value:
  assumes m: "(i', s', g') \<in> set (mt (label_value label val) (i, s, g))"
    and nl: "ngroups (seqs label) = 0" and nv: "ngroups val = 0"
  shows "\<exists>lbl ws1 c ws2 v.
           s = lbl @ ws1 @ [c] @ ws2 @ v @ s'
         \<and> i' = i + length (lbl @ ws1 @ [c] @ ws2 @ v)
         \<and> reads (seqs label) lbl \<and> all_space ws1 \<and> c \<in> set '':+!'' \<and> all_space ws2
         \<and> reads val v \<and> g' = [(1, v)] @ g"
proof -
  from m obtain st1 where
    a1: "st1 \<in> set (mt (seqs label) (i, s, g))"
    and b1: "(i', s', g') \<in> set (mt (seqs [Star (Cls is_space), oneof '':+!'', Star (Cls is_space), Group 1 val]) st1)"
    unfolding label_value_def mt_seqs_append_mem by blast
  from b1 obtain st2 st3 st4 where
    a2: "st2 \<in> set (mt (Star (Cls is_space)) st1)"
    and a3: "st3 \<in> set (mt (oneof '':+!'') st2)"
    and a4: "st4 \<in> set (mt (Star (Cls is_space)) st3)"
    and a5: "(i', s', g') \<in> set (mt (Group 1 val) st4)"
    unfolding seqs_simps mt_Seq_Eps mt_Seq_mem by blast
  obtain i1 s1 g1 where st1: "st1 = (i1, s1, g1)" by (cases st1)
  obtain i2 s2 g2 where st2: "st2 = (i2, s2, g2)" by (cases st2)
  obtain i3 s3 g3 where st3: "st3 = (i3, s3, g3)" by (cases st3)
  obtain i4 s4 g4 where st4: "st4 = (i4, s4, g4)" by (cases st4)
  from mt_step[OF a1[unfolded st1] nl] obtain lbl where
    l: "reads (seqs label) lbl" "s = lbl @ s1" "i1 = i + length lbl" "g1 = g" by blast
  from mt_step[OF a2[unfolded st1 st2]] obtain ws1 where
    w1: "reads (Star (Cls is_space)) ws1" "s1 = ws1 @ s2" "i2 = i1 + length ws1" "g2 = g1"
    by auto
  from mt_step[OF a3[unfolded st2 st3]] obtain cw where
    c: "reads (oneof '':+!'') cw" "s2 = cw @ s3" "i3 = i2 + length cw" "g3 = g2"
    by auto
  from reads_oneof[OF c(1)] obtain ch where ch: "cw = [ch]" "ch \<in> set '':+!''" by blast
  from mt_step[OF a4[unfolded st3 st4]] obtain ws2 where
    w2: "reads (Star (Cls is_space)) ws2" "s3 = ws2 @ s4" "i4 = i3 + length ws2" "g4 = g3"
    by auto
  from mt_Group_step[OF a5[unfolded st4] nv] obtain v where
    v: "reads val v" "s4 = v @ s'" "i' = i4 + length v" "g' = (1, v) # g4"
    by auto
  have e1: "s = lbl @ ws1 @ [ch] @ ws2 @ v @ s'"
    using l(2) w1(2) c(2) ch(1) w2(2) v(2) by simp
  have e2: "i' = i + length (lbl @ ws1 @ [ch] @ ws2 @ v)"
    using l(3) w1(3) c(3) ch(1) w2(3) v(3) by simp
  have e3: "g' = [(1, v)] @ g"
    using l(4) w1(4) c(4) w2(4) v(4) by simp
  have sp1: "all_space ws1" by (rule reads_spaces[OF w1(1)])
  have sp2: "all_space ws2" by (rule reads_spaces[OF w2(1)])
  note rl = l(1) and cin = ch(2) and rv = v(1)
  show ?thesis
    by (rule exI[of _ lbl], rule exI[of _ ws1], rule exI[of _ ch], rule exI[of _ ws2],
        rule exI[of _ v]) (intro conjI e1 e2 e3 rl sp1 cin sp2 rv)
qed

subsection \<open>Search\<close>

text \<open>The equations of the three walks over the text rewrite their own right-hand
  sides as well; here are their two cases.\<close>

declare search_from.simps [simp del] finditer_from.simps [simp del] sub_from.simps [simp del]

lemma search_from_Nil:
  "search_from r i [] = (case mt r (i, [], []) of st # _ \<Rightarrow> Some (mk_match r i [] st) | [] \<Rightarrow> None)"
  by (subst search_from.simps) (simp split: list.split)

lemma search_from_Cons:
  "search_from r i (c # cs) =
     (case mt r (i, c # cs, []) of st # _ \<Rightarrow> Some (mk_match r i (c # cs) st)
      | [] \<Rightarrow> search_from r (Suc i) cs)"
  by (subst search_from.simps) (simp split: list.split)

lemma search_from_SomeD:
  "search_from r i s = Some m \<Longrightarrow>
     \<exists>k st rest. k \<le> length s \<and> mt r (i + k, drop k s, []) = st # rest
                \<and> m = mk_match r (i + k) (drop k s) st"
proof (induction s arbitrary: i)
  case Nil
  then show ?case by (auto simp: search_from_Nil split: list.splits)
next
  case (Cons c cs)
  show ?case
  proof (cases "mt r (i, c # cs, [])")
    case Nil
    with Cons.prems have "search_from r (Suc i) cs = Some m" by (simp add: search_from_Cons)
    from Cons.IH[OF this] obtain k st rest where
      "k \<le> length cs" "mt r (Suc i + k, drop k cs, []) = st # rest"
      "m = mk_match r (Suc i + k) (drop k cs) st" by blast
    then show ?thesis
      by (intro exI[of _ "Suc k"] exI[of _ st] exI[of _ rest]) simp
  next
    case (Cons st rest)
    with Cons.prems have "m = mk_match r i (c # cs) st" by (simp add: search_from_Cons)
    with Cons show ?thesis
      by (intro exI[of _ 0] exI[of _ st] exI[of _ rest]) simp
  qed
qed

lemma search_from_NoneD:
  "search_from r i s = None \<Longrightarrow> k \<le> length s \<Longrightarrow> mt r (i + k, drop k s, []) = []"
proof (induction s arbitrary: i k)
  case Nil
  then show ?case by (auto simp: search_from_Nil split: list.splits)
next
  case (Cons c cs)
  from Cons.prems(1) have h: "mt r (i, c # cs, []) = []" and t: "search_from r (Suc i) cs = None"
    by (auto simp: search_from_Cons split: list.splits)
  show ?case
  proof (cases k)
    case 0
    with h show ?thesis by simp
  next
    case (Suc k')
    with Cons.prems(2) have "k' \<le> length cs" by simp
    from Cons.IH[OF t this] Suc show ?thesis by simp
  qed
qed

lemma search_from_NoneI:
  "(\<And>k. k \<le> length s \<Longrightarrow> mt r (i + k, drop k s, []) = []) \<Longrightarrow> search_from r i s = None"
proof (induction s arbitrary: i)
  case Nil
  from Nil[of 0] show ?case by (simp add: search_from_Nil)
next
  case (Cons c cs)
  from Cons.prems[of 0] have h: "mt r (i, c # cs, []) = []" by simp
  have "search_from r (Suc i) cs = None"
  proof (rule Cons.IH)
    fix k assume "k \<le> length cs"
    with Cons.prems[of "Suc k"] show "mt r (Suc i + k, drop k cs, []) = []" by simp
  qed
  with h show ?case by (simp add: search_from_Cons)
qed

lemma re_search_label_value:
  assumes m: "re_search (label_value label val) block = Some m"
    and nl: "ngroups (seqs label) = 0" and nv: "ngroups val = 0"
  shows "\<exists>pre lbl ws1 c ws2 v post.
           block = pre @ lbl @ ws1 @ [c] @ ws2 @ v @ post
         \<and> m_start m = length pre \<and> m_text m = lbl @ ws1 @ [c] @ ws2 @ v
         \<and> m_end m = m_start m + length (m_text m)
         \<and> reads (seqs label) lbl \<and> all_space ws1 \<and> c \<in> set '':+!'' \<and> all_space ws2
         \<and> reads val v \<and> group m 1 = Inr v"
proof -
  from search_from_SomeD[OF m[unfolded re_search_def]] obtain k st rest where
    k: "k \<le> length block" and r: "mt (label_value label val) (k, drop k block, []) = st # rest"
    and mm: "m = mk_match (label_value label val) k (drop k block) st"
    by auto
  obtain i' s' g' where st: "st = (i', s', g')" by (cases st)
  from r st have "(i', s', g') \<in> set (mt (label_value label val) (k, drop k block, []))" by simp
  from mt_label_value[OF this nl nv] obtain lbl ws1 c ws2 v where
    d: "drop k block = lbl @ ws1 @ [c] @ ws2 @ v @ s'"
    and e: "i' = k + length (lbl @ ws1 @ [c] @ ws2 @ v)"
    and p: "reads (seqs label) lbl" "all_space ws1" "c \<in> set '':+!''" "all_space ws2" "reads val v"
    and g: "g' = [(1, v)] @ []"
    by blast
  let ?t = "lbl @ ws1 @ [c] @ ws2 @ v"
  have "block = take k block @ drop k block" by simp
  then have b: "block = take k block @ lbl @ ws1 @ [c] @ ws2 @ v @ s'"
    by (simp only: d)
  have s: "m_start m = length (take k block)" using k by (simp add: mm mk_match_def)
  have "take (length ?t) (drop k block) = ?t"
    by (subst d) simp
  then have t: "m_text m = ?t"
    using e by (simp add: mm mk_match_def st)
  have en: "m_end m = m_start m + length (m_text m)"
    unfolding t s using e k by (simp add: mm mk_match_def st)
  have gr: "group m 1 = Inr v"
    using g by (simp add: mm mk_match_def group_def st)
  show ?thesis
    by (rule exI[of _ "take k block"], rule exI[of _ lbl], rule exI[of _ ws1], rule exI[of _ c],
        rule exI[of _ ws2], rule exI[of _ v], rule exI[of _ s']) (intro conjI b s t en p gr)
qed

subsection \<open>Labels and values\<close>


lemma reads_seqs_Nil: "reads (seqs []) w \<Longrightarrow> w = []"
  by (simp add: reads_Eps)

lemma reads_seqs_Cons:
  "reads (seqs (r # rs)) w \<Longrightarrow> \<exists>u v. w = u @ v \<and> reads r u \<and> reads (seqs rs) v"
  by (simp add: reads_Seq)

lemma reads_name_label: "reads (seqs [lit ''Name'']) w \<Longrightarrow> w = ''Name''"
  by (auto dest!: reads_Seq reads_Eps reads_lit)

lemma reads_relation_label:
  "reads (seqs [lit rel, Opt (lit APOS_S), lit '' Name'']) w \<Longrightarrow>
     w = rel @ '' Name'' \<or> w = rel @ APOS_S @ '' Name''"
  by (auto dest!: reads_Seq reads_Eps reads_Opt reads_lit)

lemma reads_house_label:
  "reads (seqs [lit ''House'', Star (Cls is_space), lit ''Number'']) w \<Longrightarrow>
     \<exists>ws. all_space ws \<and> w = ''House'' @ ws @ ''Number''"
  by (auto dest!: reads_Seq reads_Eps reads_spaces reads_lit)

lemma reads_gender_value:
  "reads (Alt (lit ''Male'') (Alt (lit ''Female'') (Alt (lit TAMIL_MALE) (lit TAMIL_FEMALE)))) v \<Longrightarrow>
     v \<in> set [''Male'', ''Female'', TAMIL_MALE, TAMIL_FEMALE]"
  by (auto dest!: reads_Alt reads_lit)

lemma run_cap: "capitalize ''Male'' = ''Male''" "capitalize ''Female'' = ''Female''"
  by code_simp+

lemma tamil_ne: "''Male'' \<noteq> TAMIL_MALE" "''Male'' \<noteq> TAMIL_FEMALE"
  "''Female'' \<noteq> TAMIL_MALE" "''Female'' \<noteq> TAMIL_FEMALE" "TAMIL_MALE \<noteq> TAMIL_FEMALE"
  by (simp_all add: TAMIL_MALE_def TAMIL_FEMALE_def)

lemma labelledI:
  assumes "re_search (label_value label val) block = Some m"
    and "ngroups (seqs label) = 0" and "ngroups val = 0"
    and lab: "\<And>w. reads (seqs label) w \<Longrightarrow> lab w" and ok: "\<And>v. reads val v \<Longrightarrow> ok v"
  shows "labelled lab ok block m"
proof -
  from re_search_label_value[OF assms(1-3)] obtain pre lbl ws1 c ws2 v post where
    b: "block = pre @ lbl @ ws1 @ [c] @ ws2 @ v @ post" and s: "m_start m = length pre"
    and l: "reads (seqs label) lbl" and w1: "all_space ws1" and c: "c \<in> set '':+!''"
    and w2: "all_space ws2" and v: "reads val v" and g: "group m 1 = Inr v"
    by blast
  note l' = lab[OF l] and v' = ok[OF v]
  show ?thesis
    unfolding labelled_def
    by (rule exI[of _ pre], rule exI[of _ lbl], rule exI[of _ ws1], rule exI[of _ c],
        rule exI[of _ ws2], rule exI[of _ v], rule exI[of _ post])
       (intro conjI b s l' w1 c w2 v' g)
qed

lemma reads_line_text: "reads (Plus (Cls (\<lambda>c. c \<noteq> NL))) v \<Longrightarrow> line_text v"
  by (auto dest!: reads_Plus_Cls simp: line_text_def)

lemma reads_word_text: "reads (Plus (Cls (\<lambda>c. c \<noteq> NL \<and> c \<noteq> CHR '' ''))) v \<Longrightarrow> word_text v"
  by (auto dest!: reads_Plus_Cls simp: word_text_def)

lemma reads_digits_text: "reads (Plus (Cls is_digit)) v \<Longrightarrow> digits_text v"
  by (auto dest!: reads_Plus_Cls simp: digits_text_def)

lemma name_labelled:
  "re_search name_pat b = Some m \<Longrightarrow> labelled (\<lambda>l. l = ''Name'') line_text b m"
  unfolding name_pat_def
  by (erule labelledI) (simp_all add: reads_name_label reads_line_text)

lemma father_labelled:
  "re_search father_pat b = Some m \<Longrightarrow> labelled (relation_label ''Father'') line_text b m"
  unfolding father_pat_def relation_label_def
  by (erule labelledI) (simp, simp, erule reads_relation_label, erule reads_line_text)

lemma husband_labelled:
  "re_search husband_pat b = Some m \<Longrightarrow> labelled (relation_label ''Husband'') line_text b m"
  unfolding husband_pat_def relation_label_def
  by (erule labelledI) (simp, simp, erule reads_relation_label, erule reads_line_text)

lemma mother_labelled:
  "re_search mother_pat b = Some m \<Longrightarrow> labelled (relation_label ''Mother'') line_text b m"
  unfolding mother_pat_def relation_label_def
  by (erule labelledI) (simp, simp, erule reads_relation_label, erule reads_line_text)

lemma house_labelled:
  "re_search house_pat b = Some m \<Longrightarrow> labelled house_label word_text b m"
  unfolding house_pat_def house_label_def
  by (erule labelledI) (simp, simp, erule reads_house_label, erule reads_word_text)

lemma age_labelled:
  "re_search age_pat b = Some m \<Longrightarrow> labelled (\<lambda>l. l = ''Age'') digits_text b m"
  unfolding age_pat_def
  by (erule labelledI) (auto simp: reads_digits_text dest!: reads_Seq reads_Eps reads_lit)

lemma gender_labelled:
  "re_search gender_pat b = Some m \<Longrightarrow> labelled (\<lambda>l. l = ''Gender'') gender_token b m"
  unfolding gender_pat_def
  by (erule labelledI)
     (auto simp: gender_token_def dest!: reads_gender_value reads_Seq reads_Eps reads_lit)




lemma fields_None:
  "name_field None = Inr []" "relation_field None None None = Inr ([], [])"
  "house_field None = Inr []" "gender_field None = Inr []" "age_field None = Inr []"
  by (simp_all add: name_field_def relation_field_def house_field_def gender_field_def
      age_field_def capitalize_def Let_def TAMIL_MALE_def TAMIL_FEMALE_def)

lemma relation_field_pairs:
  "relation_field fm hm mm = Inr rel \<Longrightarrow>
     (fst rel = [] \<longrightarrow> snd rel = []) \<and> fst rel \<in> set [[], ''S/O'', ''W/O'', ''C/O'']"
  by (auto simp: relation_field_def and_then_Inr split: option.splits)

lemma gender_field_Some:
  assumes "re_search gender_pat b = Some m" and "gender_field (Some m) = Inr g"
  shows "\<exists>raw. group m 1 = Inr raw \<and> gender_token raw
             \<and> g = (if raw = ''Male'' \<or> raw = TAMIL_MALE then ''Male'' else ''Female'')"
proof -
  from gender_labelled[OF assms(1)] obtain raw where
    r: "group m 1 = Inr raw" "gender_token raw"
    unfolding labelled_def by blast
  from assms(2) r(1) have
    g: "g = (if raw = TAMIL_MALE then ''Male'' else if raw = TAMIL_FEMALE then ''Female''
             else capitalize raw)"
    by (simp add: gender_field_def)
  from r(2) consider "raw = ''Male''" | "raw = ''Female''" | "raw = TAMIL_MALE" | "raw = TAMIL_FEMALE"
    by (auto simp: gender_token_def)
  then have "g = (if raw = ''Male'' \<or> raw = TAMIL_MALE then ''Male'' else ''Female'')"
    using g tamil_ne run_cap by cases (simp_all add: tamil_ne[symmetric])
  with r show ?thesis by blast
qed

subsection \<open>Groups that every match has\<close>

lemma mt_must:
  "st' \<in> set (mt r st) \<Longrightarrow>
     fst ` set (snd (snd st)) \<union> must_groups r \<subseteq> fst ` set (snd (snd st'))"
proof (induction r st arbitrary: st' rule: mt.induct)
  case (1 p i s g)
  then show ?case by (auto split: list.splits if_splits)
next
  case (2 st)
  then show ?case by simp
next
  case (3 r1 r2 st)
  from "3.prems" obtain st1 where a: "st1 \<in> set (mt r1 st)" and b: "st' \<in> set (mt r2 st1)"
    by auto
  from "3.IH"(1)[OF a] "3.IH"(2)[OF a b] show ?case by (simp only: must_groups.simps) blast
next
  case (4 r1 r2 st)
  from "4.prems" consider "st' \<in> set (mt r1 st)" | "st' \<in> set (mt r2 st)" by auto
  then show ?case
  proof cases
    case 1
    from "4.IH"(1)[OF 1] show ?thesis by (simp only: must_groups.simps) blast
  next
    case 2
    from "4.IH"(2)[OF 2] show ?thesis by (simp only: must_groups.simps) blast
  qed
next
  case (5 r st)
  show ?case
  proof (cases "st' = st")
    case True
    then show ?thesis by simp
  next
    case False
    with "5.prems" obtain st1 where a: "st1 \<in> set (mt r st)"
      and l: "length (fst (snd st1)) < length (fst (snd st))"
      and b: "st' \<in> set (mt (Star r) st1)"
      by (subst (asm) mt_Star_unfold) (auto split: if_splits)
    from "5.IH"(1)[OF a] "5.IH"(2)[OF a l b] show ?thesis by (simp only: must_groups.simps) blast
  qed
next
  case (6 r st)
  show ?case
  proof (cases "st' = st")
    case True
    then show ?thesis by simp
  next
    case False
    with "6.prems" obtain st1 where a: "st1 \<in> set (mt r st)"
      and l: "length (fst (snd st1)) < length (fst (snd st))"
      and b: "st' \<in> set (mt (LazyStar r) st1)"
      by (subst (asm) mt_LazyStar_unfold) (auto split: if_splits)
    from "6.IH"(1)[OF a] "6.IH"(2)[OF a l b] show ?thesis by (simp only: must_groups.simps) blast
  qed
next
  case (7 n r i s g)
  from "7.prems" obtain st1 where a: "st1 \<in> set (mt r (i, s, g))"
    and b: "snd (snd st') = (n, take (fst st1 - i) s) # snd (snd st1)"
    by (auto simp: case_prod_beta)
  from "7.IH"[OF a] b show ?case by auto
next
  case (8 i s g)
  then show ?case by (auto split: if_splits)
next
  case (9 i s g)
  then show ?case by (auto split: if_splits)
qed

lemma group_must:
  assumes "st \<in> set (mt r (i, s, []))" and "n \<in> must_groups r" and "0 < n"
  shows "\<exists>w. group (mk_match r i s st) n = Inr w"
proof -
  from mt_must[OF assms(1)] assms(2) have "n \<in> fst ` set (snd (snd st))" by auto
  then have "map_of (snd (snd st)) n \<noteq> None" by (simp add: map_of_eq_None_iff)
  with assms(3) show ?thesis by (auto simp: group_def mk_match_def)
qed

lemma re_search_group:
  assumes "re_search r s = Some m" and "n \<in> must_groups r" and "0 < n"
  shows "\<exists>w. group m n = Inr w"
proof -
  from search_from_SomeD[OF assms(1)[unfolded re_search_def]] obtain k st rest where
    "mt r (0 + k, drop k s, []) = st # rest" "m = mk_match r (0 + k) (drop k s) st" by blast
  then show ?thesis using group_must[of st r "0 + k" "drop k s" n] assms(2,3) by simp
qed

lemma re_match_group:
  assumes "re_match r s = Some m" and "n \<in> must_groups r" and "0 < n"
  shows "\<exists>w. group m n = Inr w"
proof -
  from assms(1) obtain st rest where
    "mt r (0, s, []) = st # rest" "m = mk_match r 0 s st"
    by (auto simp: re_match_def split: list.splits)
  then show ?thesis using group_must[of st r 0 s n] assms(2,3) by simp
qed

lemma must_groups_seqs [simp]: "must_groups (seqs rs) = \<Union> (set (map must_groups rs))"
  by (induction rs) simp_all

lemma must_groups_label_value [simp]: "Suc 0 \<in> must_groups (label_value label val)"
  by (simp add: label_value_def)

lemma must_one [simp]:
  "Suc 0 \<in> must_groups name_pat" "Suc 0 \<in> must_groups father_pat"
  "Suc 0 \<in> must_groups husband_pat" "Suc 0 \<in> must_groups mother_pat"
  "Suc 0 \<in> must_groups house_pat" "Suc 0 \<in> must_groups age_pat"
  "Suc 0 \<in> must_groups gender_pat" "Suc 0 \<in> must_groups part_pat"
  "Suc 0 \<in> must_groups section_pat"
  by (simp_all add: name_pat_def father_pat_def husband_pat_def mother_pat_def house_pat_def
      age_pat_def gender_pat_def part_pat_def section_pat_def)

lemma must_house_no [simp]:
  "Suc 0 \<in> must_groups house_no_pat" "Suc (Suc 0) \<in> must_groups house_no_pat"
  by (simp_all add: house_no_pat_def)

lemma ngroups_Plus: "ngroups (Plus r) = ngroups r + ngroups r"
  by (simp add: Plus_def)

lemma count_house_no: "ngroups house_no_pat = 2"
  by (simp add: house_no_pat_def ngroups_Plus)

subsection \<open>The functions return\<close>

lemma normalize_house_no_total: "\<exists>out. normalize_house_no h = Inr out"
proof (cases "re_match house_no_pat (house_prepared h)")
  case None
  then show ?thesis by (simp add: normalize_house_no_def house_prepared_def Let_def)
next
  case (Some m)
  from re_match_group[OF Some must_house_no(1)] obtain num where n: "group m (Suc 0) = Inr num"
    by auto
  from re_match_group[OF Some must_house_no(2)] obtain suf where s: "group m (Suc (Suc 0)) = Inr suf"
    by auto
  from Some have "m_count m = 2"
    by (auto simp: re_match_def mk_match_def count_house_no split: list.splits)
  then have "groups m = Inr [num, suf]"
    by (simp add: groups_def n s upt_rec[of 1] upt_rec[of 2] numeral_2_eq_2)
  with Some show ?thesis
    by (simp add: normalize_house_no_def house_prepared_def Let_def)
qed

lemma name_field_total: "\<exists>v. name_field (re_search name_pat b) = Inr v"
proof (cases "re_search name_pat b")
  case None
  then show ?thesis by (simp add: name_field_def Let_def)
next
  case (Some m)
  from re_search_group[OF Some must_one(1)] obtain w where "group m 1 = Inr w" by auto
  with Some show ?thesis by (simp add: name_field_def Let_def)
qed

lemma relation_field_total:
  "\<exists>v. relation_field (re_search father_pat b) (re_search husband_pat b) (re_search mother_pat b) = Inr v"
proof -
  have f: "\<And>m. re_search father_pat b = Some m \<Longrightarrow> \<exists>w. group m 1 = Inr w"
    using re_search_group[OF _ must_one(2)] by simp
  have h: "\<And>m. re_search husband_pat b = Some m \<Longrightarrow> \<exists>w. group m 1 = Inr w"
    using re_search_group[OF _ must_one(3)] by simp
  have m: "\<And>m. re_search mother_pat b = Some m \<Longrightarrow> \<exists>w. group m 1 = Inr w"
    using re_search_group[OF _ must_one(4)] by simp
  show ?thesis
    unfolding relation_field_def
    by (auto split: option.splits dest!: f h m)
qed

lemma house_field_total: "\<exists>v. house_field (re_search house_pat b) = Inr v"
proof (cases "re_search house_pat b")
  case None
  then show ?thesis by (simp add: house_field_def)
next
  case (Some m)
  from re_search_group[OF Some must_one(5)] obtain w where "group m 1 = Inr w" by auto
  with Some normalize_house_no_total[of "clean w"] show ?thesis by (auto simp: house_field_def)
qed

lemma gender_field_total: "\<exists>v. gender_field (re_search gender_pat b) = Inr v"
proof (cases "re_search gender_pat b")
  case None
  then show ?thesis by (simp add: gender_field_def)
next
  case (Some m)
  from re_search_group[OF Some must_one(7)] obtain w where "group m 1 = Inr w" by auto
  with Some show ?thesis by (simp add: gender_field_def)
qed

lemma age_field_total: "\<exists>v. age_field (re_search age_pat b) = Inr v"
proof (cases "re_search age_pat b")
  case None
  then show ?thesis by (simp add: age_field_def)
next
  case (Some m)
  from re_search_group[OF Some must_one(6)] obtain w where "group m 1 = Inr w" by auto
  with Some show ?thesis by (simp add: age_field_def)
qed

lemma parse_block_eq:
  assumes "name_field (re_search name_pat b) = Inr nm"
    and "relation_field (re_search father_pat b) (re_search husband_pat b) (re_search mother_pat b) = Inr rel"
    and "house_field (re_search house_pat b) = Inr h"
    and "gender_field (re_search gender_pat b) = Inr g"
    and "age_field (re_search age_pat b) = Inr a"
  shows "parse_block b =
           Inr \<lparr>name = nm, relation_type = fst rel, relation_name = snd rel,
                house_number = h, age = a, gender = g\<rparr>"
  using assms by (simp add: parse_block_def Let_def)

lemma parse_block_total: "\<exists>f. parse_block b = Inr f"
  using name_field_total[of b] relation_field_total[of b] house_field_total[of b]
    gender_field_total[of b] age_field_total[of b] parse_block_eq[of b]
  by metis

lemma parse_block_fields:
  "\<exists>nm rel h g a.
      name_field (re_search name_pat b) = Inr nm
    \<and> relation_field (re_search father_pat b) (re_search husband_pat b) (re_search mother_pat b) = Inr rel
    \<and> house_field (re_search house_pat b) = Inr h
    \<and> gender_field (re_search gender_pat b) = Inr g
    \<and> age_field (re_search age_pat b) = Inr a
    \<and> parse_block b = Inr \<lparr>name = nm, relation_type = fst rel, relation_name = snd rel,
                           house_number = h, age = a, gender = g\<rparr>"
  using name_field_total[of b] relation_field_total[of b] house_field_total[of b]
    gender_field_total[of b] age_field_total[of b] parse_block_eq[of b]
  by metis

subsection \<open>The anchors of a page\<close>

lemma max_by3:
  "max_by f [a, b, c] =
     Inr (if f b \<le> f a \<and> f c \<le> f a then a else if f c \<le> f b then b else c)"
  by auto

lemma completeness_range: "0 \<le> completeness f \<and> completeness f \<le> 4"
  by (simp add: completeness_def)

lemma nth_e_Inr: "i < length xs \<Longrightarrow> nth_e xs i = Inr (xs ! i)"
  by (simp add: nth_e_def)

lemma windows_eq:
  "i < length ids \<Longrightarrow>
     windows t ids i (fst (ids ! i)) = Inr (after_window t ids i, before_window t ids i)"
  by (simp add: windows_def nth_e_Inr after_window_def before_window_def)

lemma parse_anchor_Inr:
  assumes "i < length ids"
    and "parse_anchor t ids part sect pg (i, ids ! i) = Inr v"
  shows "\<exists>ca cb cc.
           parse_block (after_window t ids i) = Inr ca
         \<and> parse_block (before_window t ids i) = Inr cb
         \<and> parse_block (before_window t ids i @ [NL] @ after_window t ids i) = Inr cc
         \<and> v = assemble (snd (ids ! i))
                 (if completeness cb \<le> completeness ca \<and> completeness cc \<le> completeness ca then ca
                  else if completeness cc \<le> completeness cb then cb else cc)
                 part sect pg"
proof -
  obtain pos vid where p: "ids ! i = (pos, vid)" by (cases "ids ! i")
  from assms(1) p have w: "windows t ids i pos = Inr (after_window t ids i, before_window t ids i)"
    using windows_eq[of i ids t] by simp
  from assms(2) obtain cs best where
    cs: "candidates (after_window t ids i) (before_window t ids i) = Inr cs"
    and best: "max_by completeness cs = Inr best"
    and v: "v = assemble vid best part sect pg"
    by (auto simp: parse_anchor_def p w and_then_Inr)
  from cs obtain ca cb cc where
    "parse_block (after_window t ids i) = Inr ca"
    "parse_block (before_window t ids i) = Inr cb"
    "parse_block (before_window t ids i @ [NL] @ after_window t ids i) = Inr cc"
    "cs = [ca, cb, cc]"
    unfolding candidates_def collect_Inr by (auto simp: Cons_eq_map_conv)
  with best v p show ?thesis
    by (auto simp: max_by3 simp del: max_by.simps)
qed

lemma enumerate_nth: "i < length xs \<Longrightarrow> enumerate 0 xs ! i = (i, xs ! i)"
  by (simp add: nth_enumerate_eq)

lemma parse_page_Inr:
  assumes "parse_page text pg = Inr voters"
  shows "\<exists>part sect.
     collect (map (parse_anchor (re_sub blanks_pat '' '' text)
                     (id_positions_of (re_sub blanks_pat '' '' text)) part sect pg)
                  (enumerate 0 (id_positions_of (re_sub blanks_pat '' '' text)))) = Inr voters"
  using assms by (auto simp: parse_page_def Let_def and_then_Inr)

lemma collect_total:
  "(\<And>x. x \<in> set xs \<Longrightarrow> \<exists>y. f x = Inr y) \<Longrightarrow> \<exists>ys. collect (map f xs) = Inr ys"
proof (induction xs)
  case Nil
  then show ?case by simp
next
  case (Cons x xs)
  from Cons.prems[of x] obtain y where y: "f x = Inr y" by auto
  from Cons.IH Cons.prems obtain ys where "collect (map f xs) = Inr ys" by auto
  with y show ?case by simp
qed

lemma parse_anchor_total:
  assumes "i < length ids"
  shows "\<exists>v. parse_anchor t ids part sect pg (i, ids ! i) = Inr v"
proof -
  obtain pos vid where p: "ids ! i = (pos, vid)" by (cases "ids ! i")
  from assms p have w: "windows t ids i pos = Inr (after_window t ids i, before_window t ids i)"
    using windows_eq[of i ids t] by simp
  obtain ca where ca: "parse_block (after_window t ids i) = Inr ca"
    using parse_block_total by blast
  obtain cb where cb: "parse_block (before_window t ids i) = Inr cb"
    using parse_block_total by blast
  obtain cc where cc: "parse_block (before_window t ids i @ [NL] @ after_window t ids i) = Inr cc"
    using parse_block_total by blast
  have "candidates (after_window t ids i) (before_window t ids i) = Inr [ca, cb, cc]"
    using ca cb cc by (simp add: candidates_def)
  then show ?thesis
    by (simp add: parse_anchor_def p w max_by3 del: max_by.simps)
qed

lemma set_enumerate_nth:
  "e \<in> set (enumerate 0 xs) \<Longrightarrow> \<exists>i < length xs. e = (i, xs ! i)"
  by (auto simp: in_set_conv_nth nth_enumerate_eq)

lemma part_total:
  "\<exists>part. (case re_search part_pat t of Some m \<Rightarrow> group m 1 | None \<Rightarrow> Inr []) = Inr part"
proof (cases "re_search part_pat t")
  case None
  then show ?thesis by simp
next
  case (Some m)
  from re_search_group[OF Some must_one(8)] show ?thesis using Some by simp
qed

lemma section_total:
  "\<exists>sect. (case re_search section_pat t of Some m \<Rightarrow> and_then (group m 1) (\<lambda>w. Inr (clean w))
            | None \<Rightarrow> Inr []) = Inr sect"
proof (cases "re_search section_pat t")
  case None
  then show ?thesis by simp
next
  case (Some m)
  from re_search_group[OF Some must_one(9)] obtain w where "group m 1 = Inr w" by auto
  then show ?thesis using Some by simp
qed

lemma parse_page_total:
  "\<exists>vs. parse_page text pg = Inr vs
       \<and> length vs = length (finditer VOTER_ID_PAT (re_sub blanks_pat '' '' text))"
proof -
  let ?t = "re_sub blanks_pat '' '' text"
  let ?ids = "id_positions_of ?t"
  obtain part where part: "(case re_search part_pat ?t of Some m \<Rightarrow> group m 1 | None \<Rightarrow> Inr []) = Inr part"
    using part_total by blast
  obtain sect where sect:
    "(case re_search section_pat ?t of Some m \<Rightarrow> and_then (group m 1) (\<lambda>w. Inr (clean w))
      | None \<Rightarrow> Inr []) = Inr sect"
    using section_total by blast
  have "\<exists>vs. collect (map (parse_anchor ?t ?ids part sect pg) (enumerate 0 ?ids)) = Inr vs"
  proof (rule collect_total)
    fix e assume "e \<in> set (enumerate 0 ?ids)"
    from set_enumerate_nth[OF this] obtain i where "i < length ?ids" "e = (i, ?ids ! i)" by blast
    with parse_anchor_total[of i ?ids ?t part sect pg]
    show "\<exists>y. parse_anchor ?t ?ids part sect pg e = Inr y" by simp
  qed
  then obtain vs where vs: "collect (map (parse_anchor ?t ?ids part sect pg) (enumerate 0 ?ids)) = Inr vs"
    by blast
  from collect_map_Inr(1)[OF vs] have "length vs = length (finditer VOTER_ID_PAT ?t)"
    by (simp add: id_positions_of_def)
  moreover have "parse_page text pg = Inr vs"
    by (simp add: parse_page_def Let_def part sect vs)
  ultimately show ?thesis by blast
qed

subsection \<open>Runs of the examples\<close>

lemma page1_run: "parse_page page1_text 1 = Inr [row1]"
  by code_simp

lemma page2_run: "parse_page page2_text 2 = Inr [row2]"
  by code_simp

lemma cleaning_run: "cleaning [row1, row2] [] {} = [row1]"
  by code_simp

lemma cleaning_run3: "cleaning [row0, row1, row2] [] {} = [row1]"
  by code_simp

lemma scenario_voters: "all_voters scenario = Inr [row1, row2]"
  by (simp add: all_voters_def scenario_def page1_run page2_run and_then_def)

lemma scenario_run:
  "json_to_csv scenario = Inr \<lparr>raw_rows = [row1, row2], clean_rows = [row1], total = 1\<rparr>"
  by (simp add: json_to_csv_def scenario_voters and_then_def cleaning_run del: cleaning.simps)

subsection \<open>Runs on single windows\<close>

lemma run_father:
  "parse_block ''Father Name: RAJAN'' =
     Inr (no_fields\<lparr>name := ''RAJAN'', relation_type := ''S/O'', relation_name := ''RAJAN''\<rparr>)"
  by code_simp

lemma run_father_dash:
  "parse_block ''Father Name:-'' = Inr (no_fields\<lparr>relation_type := ''S/O''\<rparr>)"
  by code_simp

lemma run_name:
  "parse_block ''Name: X'' = Inr (no_fields\<lparr>name := ''X''\<rparr>)"
  "parse_block ''Name+ X'' = Inr (no_fields\<lparr>name := ''X''\<rparr>)"
  "parse_block ''Name! X'' = Inr (no_fields\<lparr>name := ''X''\<rparr>)"
  "parse_block ''name: X'' = Inr no_fields"
  "parse_block ''NAME: X'' = Inr no_fields"
  by code_simp+

lemma run_gender:
  "parse_block ''Gender: Male'' = Inr (no_fields\<lparr>gender := ''Male''\<rparr>)"
  "parse_block ''Gender: Female'' = Inr (no_fields\<lparr>gender := ''Female''\<rparr>)"
  "parse_block (''Gender: '' @ TAMIL_MALE) = Inr (no_fields\<lparr>gender := ''Male''\<rparr>)"
  "parse_block (''Gender: '' @ TAMIL_FEMALE) = Inr (no_fields\<lparr>gender := ''Female''\<rparr>)"
  "parse_block ''Gender: male'' = Inr no_fields"
  "parse_block ''Gender: Other'' = Inr no_fields"
  by code_simp+

lemma run_age:
  "parse_block ''Age: 34'' = Inr (no_fields\<lparr>age := ''34''\<rparr>)"
  by code_simp

lemma run_separators:
  "parse_block ''Father Name! RAJAN'' =
     Inr (no_fields\<lparr>name := ''RAJAN'', relation_type := ''S/O'', relation_name := ''RAJAN''\<rparr>)"
  "parse_block ''House Number+ 45A'' = Inr (no_fields\<lparr>house_number := ''45A''\<rparr>)"
  "parse_block ''Age! 34'' = Inr (no_fields\<lparr>age := ''34''\<rparr>)"
  "parse_block ''Gender+ Male'' = Inr (no_fields\<lparr>gender := ''Male''\<rparr>)"
  by code_simp+

lemma run_labels:
  "re_search name_pat labels_text \<noteq> None" "re_search father_pat labels_text \<noteq> None"
  "re_search house_pat labels_text \<noteq> None" "re_search age_pat labels_text \<noteq> None"
  "re_search gender_pat labels_text \<noteq> None"
  by code_simp+




lemma run_relations:
  "parse_block ''Husband Name: RAJAN'' =
     Inr (no_fields\<lparr>name := ''RAJAN'', relation_type := ''W/O'', relation_name := ''RAJAN''\<rparr>)"
  "parse_block ''Mother Name: RAJAN'' =
     Inr (no_fields\<lparr>name := ''RAJAN'', relation_type := ''C/O'', relation_name := ''RAJAN''\<rparr>)"
  "parse_block (''Husband Name: A'' @ [NL] @ ''Father Name: B'') =
     Inr (no_fields\<lparr>name := ''A'', relation_type := ''S/O'', relation_name := ''B''\<rparr>)"
  by code_simp+

lemma run_every_separator:
  "\<forall>c \<in> set '':+!''.
       parse_block (''Name'' @ [c] @ '' X'') = Inr (no_fields\<lparr>name := ''X''\<rparr>)
     \<and> parse_block (''Father Name'' @ [c] @ '' X'') =
         Inr (no_fields\<lparr>name := ''X'', relation_type := ''S/O'', relation_name := ''X''\<rparr>)
     \<and> parse_block (''Husband'' @ APOS_S @ '' Name'' @ [c] @ '' X'') =
         Inr (no_fields\<lparr>name := ''X'', relation_type := ''W/O'', relation_name := ''X''\<rparr>)
     \<and> parse_block (''Mother Name'' @ [c] @ '' X'') =
         Inr (no_fields\<lparr>name := ''X'', relation_type := ''C/O'', relation_name := ''X''\<rparr>)
     \<and> parse_block (''House Number'' @ [c] @ '' 45A'') = Inr (no_fields\<lparr>house_number := ''45A''\<rparr>)
     \<and> parse_block (''Age'' @ [c] @ '' 34'') = Inr (no_fields\<lparr>age := ''34''\<rparr>)
     \<and> parse_block (''Gender'' @ [c] @ '' Male'') = Inr (no_fields\<lparr>gender := ''Male''\<rparr>)"
  by code_simp

lemma run_other_case:
  "parse_block ''name: X'' = Inr no_fields"
  "parse_block ''NAME: X'' = Inr no_fields"
  "parse_block ''father Name: X'' = Inr (no_fields\<lparr>name := ''X''\<rparr>)"
  "parse_block ''HUSBAND Name: X'' = Inr (no_fields\<lparr>name := ''X''\<rparr>)"
  "parse_block ''mother Name: X'' = Inr (no_fields\<lparr>name := ''X''\<rparr>)"
  "parse_block ''house number: 45A'' = Inr no_fields"
  "parse_block ''AGE: 34'' = Inr no_fields"
  "parse_block ''gender: Male'' = Inr no_fields"
  "parse_block ''Name# X'' = Inr no_fields"
  "parse_block ''Age; 34'' = Inr no_fields"
  by code_simp+

subsection \<open>Fields of the record\<close>

lemma labelled_mono:
  assumes "labelled lab ok b m" and "\<And>v. ok v \<Longrightarrow> group m 1 = Inr v \<Longrightarrow> ok' v"
  shows "labelled lab ok' b m"
proof -
  from assms(1) obtain pre lbl ws1 c ws2 v post where
    b: "b = pre @ lbl @ ws1 @ [c] @ ws2 @ v @ post" and s: "m_start m = length pre"
    and l: "lab lbl" and w1: "all_space ws1" and c: "c \<in> set '':+!''"
    and w2: "all_space ws2" and v: "ok v" and g: "group m 1 = Inr v"
    unfolding labelled_def by blast
  note v' = assms(2)[OF v g]
  show ?thesis
    unfolding labelled_def
    by (rule exI[of _ pre], rule exI[of _ lbl], rule exI[of _ ws1], rule exI[of _ c],
        rule exI[of _ ws2], rule exI[of _ v], rule exI[of _ post])
       (intro conjI b s l w1 c w2 v' g)
qed

lemma parse_block_gender:
  assumes "parse_block b = Inr f"
  shows "gender_field (re_search gender_pat b) = Inr (gender f)"
proof -
  from parse_block_fields[of b] obtain nm rel h g a where
    "gender_field (re_search gender_pat b) = Inr g"
    "parse_block b = Inr \<lparr>name = nm, relation_type = fst rel, relation_name = snd rel,
                          house_number = h, age = a, gender = g\<rparr>"
    by blast
  with assms show ?thesis by auto
qed


lemma parse_block_relation:
  assumes "parse_block b = Inr f"
  shows "relation_field (re_search father_pat b) (re_search husband_pat b)
           (re_search mother_pat b) = Inr (relation_type f, relation_name f)"
proof -
  from parse_block_fields[of b] obtain nm rel h g a where
    "relation_field (re_search father_pat b) (re_search husband_pat b)
       (re_search mother_pat b) = Inr rel"
    "parse_block b = Inr \<lparr>name = nm, relation_type = fst rel, relation_name = snd rel,
                          house_number = h, age = a, gender = g\<rparr>"
    by blast
  with assms show ?thesis by auto
qed

lemma relation_labelled:
  assumes l: "labelled lab line_text b m"
    and r: "and_then (group m 1) (\<lambda>w. Inr (tag, clean w)) = Inr (ty, nm)"
  shows "ty = tag \<and> labelled lab (\<lambda>v. line_text v \<and> nm = clean v) b m"
proof -
  from l obtain v where g: "group m 1 = Inr v" unfolding labelled_def by blast
  with r have e: "ty = tag" "nm = clean v" by simp_all
  have "labelled lab (\<lambda>v. line_text v \<and> nm = clean v) b m"
    by (rule labelled_mono[OF l]) (use g e in simp)
  with e show ?thesis by simp
qed

subsection \<open>Selection among the candidates\<close>

lemma run_tie:
  "parse_page tie_text 1 = Inr [tie_row]"
  "re_sub blanks_pat '' '' tie_text = tie_text"
  "id_positions_of tie_text = [(7, ''AB1234567'')]"
  "after_window tie_text [(7, ''AB1234567'')] 0 = ''AB1234567 Name:X''"
  "before_window tie_text [(7, ''AB1234567'')] 0 = ''Name:Y ''"
  "parse_block ''AB1234567 Name:X'' = Inr (no_fields\<lparr>name := ''X''\<rparr>)"
  "parse_block ''Name:Y '' = Inr (no_fields\<lparr>name := ''Y''\<rparr>)"
  "parse_block (''Name:Y '' @ [NL] @ ''AB1234567 Name:X'') = Inr (no_fields\<lparr>name := ''Y''\<rparr>)"
  by code_simp+

lemma earliest_max3:
  "earliest_max f [a, b, c] (if f b \<le> f a \<and> f c \<le> f a then 0 else if f c \<le> f b then 1 else 2)"
  by (auto simp: earliest_max_def nth_Cons' less_Suc_eq numeral_3_eq_3 numeral_2_eq_2)

lemma nth3:
  "[a, b, c] ! (if p then 0 else if q then 1 else 2) = (if p then a else if q then b else c)"
  by simp

lemma completeness_score: "completeness f = score_spec f"
  by (simp add: completeness_def score_spec_def)

lemma truncate_assemble: "fields.truncate (assemble vid best part sect pg) = best"
  by (simp add: assemble_def fields.truncate_def)

lemma voter_id_assemble: "voter_id (assemble vid best part sect pg) = vid"
  by (simp add: assemble_def)

lemma selection_of_anchor:
  assumes i: "i < length ids"
    and a: "parse_anchor t ids part sect pg (i, ids ! i) = Inr v"
  shows "\<exists>ca cb cc k.
           parse_block (after_window t ids i) = Inr ca
         \<and> parse_block (before_window t ids i) = Inr cb
         \<and> parse_block (before_window t ids i @ [NL] @ after_window t ids i) = Inr cc
         \<and> earliest_max completeness [ca, cb, cc] k
         \<and> fields.truncate v = [ca, cb, cc] ! k
         \<and> voter_id v = snd (ids ! i)
         \<and> (\<forall>c \<in> set [ca, cb, cc].
               completeness c = score_spec c \<and> 0 \<le> completeness c \<and> completeness c \<le> 4)"
proof -
  from parse_anchor_Inr[OF i a] obtain ca cb cc where
    ca: "parse_block (after_window t ids i) = Inr ca"
    and cb: "parse_block (before_window t ids i) = Inr cb"
    and cc: "parse_block (before_window t ids i @ [NL] @ after_window t ids i) = Inr cc"
    and v: "v = assemble (snd (ids ! i))
                 (if completeness cb \<le> completeness ca \<and> completeness cc \<le> completeness ca then ca
                  else if completeness cc \<le> completeness cb then cb else cc)
                 part sect pg"
    by blast
  let ?k = "if completeness cb \<le> completeness ca \<and> completeness cc \<le> completeness ca then 0
            else if completeness cc \<le> completeness cb then 1 else (2::nat)"
  have e: "earliest_max completeness [ca, cb, cc] ?k" by (rule earliest_max3)
  have tr: "fields.truncate v = [ca, cb, cc] ! ?k"
    unfolding v truncate_assemble nth3 ..
  have vid: "voter_id v = snd (ids ! i)" unfolding v by (rule voter_id_assemble)
  have sc: "\<forall>c \<in> set [ca, cb, cc].
              completeness c = score_spec c \<and> 0 \<le> completeness c \<and> completeness c \<le> 4"
    using completeness_range completeness_score by blast
  show ?thesis
    by (rule exI[of _ ca], rule exI[of _ cb], rule exI[of _ cc], rule exI[of _ ?k])
       (intro conjI ca cb cc e tr vid sc)
qed

lemma tie_scores:
  "completeness (no_fields\<lparr>name := ''X''\<rparr>) = 1" "completeness (no_fields\<lparr>name := ''Y''\<rparr>) = 1"
  "earliest_max completeness
     [no_fields\<lparr>name := ''X''\<rparr>, no_fields\<lparr>name := ''Y''\<rparr>, no_fields\<lparr>name := ''Y''\<rparr>] 0"
  "fields.truncate tie_row = no_fields\<lparr>name := ''X''\<rparr>"
  by (simp_all add: completeness_def no_fields_def earliest_max_def tie_row_def
      fields.truncate_def)

subsection \<open>House numbers\<close>

lemma mt_house_no_sound:
  assumes "st \<in> set (mt house_no_pat (0, p, []))"
  shows "\<exists>num suf rest. p = num @ suf @ rest \<and> house_chars num
           \<and> (suf = [] \<or> (\<exists>c. suf = [c] \<and> is_alpha c)) \<and> (rest = [] \<or> rest = [NL])
           \<and> snd (snd st) = [(2, suf), (1, num)]"
proof -
  from assms obtain st1 st2 st3 where
    a1: "st1 \<in> set (mt Bol (0, p, []))"
    and a2': "st2 \<in> set (mt (Group 1 (Plus (Cls (\<lambda>c. is_digit c \<or> c = CHR ''/'')))) st1)"
    and a3: "st3 \<in> set (mt (Group 2 (Opt (Cls is_alpha))) st2)"
    and a4: "st \<in> set (mt Eol st3)"
    unfolding house_no_pat_def seqs_simps mt_Seq_Eps mt_Seq_mem by blast
  from a1 have "st1 = (0, p, [])" by simp
  with a2' have
    a2: "st2 \<in> set (mt (Group 1 (Plus (Cls (\<lambda>c. is_digit c \<or> c = CHR ''/'')))) (0, p, []))"
    by simp
  obtain i2 s2 g2 where st2: "st2 = (i2, s2, g2)" by (cases st2)
  obtain i3 s3 g3 where st3: "st3 = (i3, s3, g3)" by (cases st3)
  from mt_Group_step[OF a2[unfolded st2]] obtain num where
    n: "reads (Plus (Cls (\<lambda>c. is_digit c \<or> c = CHR ''/''))) num" "p = num @ s2" "g2 = [(1, num)]"
    by auto
  from mt_Group_step[OF a3[unfolded st2 st3]] obtain suf where
    s: "reads (Opt (Cls is_alpha)) suf" "s2 = suf @ s3" "g3 = (2, suf) # g2"
    by auto
  from a4 st3 have e: "st = st3" "s3 = [] \<or> s3 = [NL]" by (auto split: if_splits)
  from reads_Plus_Cls[OF n(1)] have hc: "house_chars num" by (simp add: house_chars_def)
  from reads_Opt[OF s(1)] have sf: "suf = [] \<or> (\<exists>c. suf = [c] \<and> is_alpha c)"
    by (auto dest: reads_Cls)
  have p: "p = num @ suf @ s3" using n(2) s(2) by simp
  have g: "snd (snd st) = [(2, suf), (1, num)]" using e(1) st3 s(3) n(3) by simp
  show ?thesis
    by (rule exI[of _ num], rule exI[of _ suf], rule exI[of _ s3]) (intro conjI p hc sf e(2) g)
qed

lemma house_no_match:
  assumes "re_match house_no_pat p = Some m"
  shows "\<exists>num suf rest. p = num @ suf @ rest \<and> house_chars num
           \<and> (suf = [] \<or> (\<exists>c. suf = [c] \<and> is_alpha c)) \<and> (rest = [] \<or> rest = [NL])
           \<and> groups m = Inr [num, suf]"
proof -
  from assms obtain st rest' where
    r: "mt house_no_pat (0, p, []) = st # rest'" and m: "m = mk_match house_no_pat 0 p st"
    by (auto simp: re_match_def split: list.splits)
  from r have "st \<in> set (mt house_no_pat (0, p, []))" by simp
  from mt_house_no_sound[OF this] obtain num suf rest where
    d: "p = num @ suf @ rest" "house_chars num"
       "suf = [] \<or> (\<exists>c. suf = [c] \<and> is_alpha c)" "rest = [] \<or> rest = [NL]"
    and g: "snd (snd st) = [(2, suf), (1, num)]"
    by blast
  have "groups m = Inr [num, suf]"
    by (simp add: groups_def m mk_match_def count_house_no g group_def
        upt_rec[of 1] upt_rec[of 2] numeral_2_eq_2)
  with d show ?thesis by blast
qed

lemma mt_star_cls_mem:
  "k \<le> length (takeWhile p s) \<Longrightarrow> (i + k, drop k s, g) \<in> set (mt (Star (Cls p)) (i, s, g))"
  by (cases "k = length (takeWhile p s)") (auto simp: mt_star_cls)

lemma mt_plus_cls_all:
  assumes "w \<noteq> []" and "\<forall>c \<in> set w. p c"
  shows "(i + length w, s, g) \<in> set (mt (Plus (Cls p)) (i, w @ s, g))"
proof -
  from assms(1) obtain c cs where w: "w = c # cs" by (cases w) auto
  with assms(2) have pc: "p c" and pcs: "\<forall>x \<in> set cs. p x" by auto
  from pcs have "takeWhile p (cs @ s) = cs @ takeWhile p s" by (simp add: takeWhile_append2)
  then have "length cs \<le> length (takeWhile p (cs @ s))" by simp
  from mt_star_cls_mem[OF this, of "Suc i" g]
  have "(Suc i + length cs, s, g) \<in> set (mt (Star (Cls p)) (Suc i, cs @ s, g))" by simp
  with pc show ?thesis by (simp add: Plus_def w)
qed

lemma mt_Group_mem:
  "(i', s', g') \<in> set (mt r (i, s, g)) \<Longrightarrow>
     (i', s', (n, take (i' - i) s) # g') \<in> set (mt (Group n r) (i, s, g))"
  by force

lemma house_no_accepts:
  assumes "house_valid p"
  shows "mt house_no_pat (0, p, []) \<noteq> []"
proof -
  from assms obtain num suf where p: "p = num @ suf" and hc: "house_chars num"
    and sf: "suf = [] \<or> (\<exists>c. suf = [c] \<and> is_alpha c)"
  proof (cases "house_chars p")
    case True
    with that[of p "[]"] show ?thesis by simp
  next
    case False
    with assms have "p \<noteq> []" "is_alpha (last p)" "house_chars (butlast p)"
      by (auto simp: house_valid_def)
    with that[of "butlast p" "[last p]"] show ?thesis by simp
  qed
  let ?d = "\<lambda>c. is_digit c \<or> c = CHR ''/''"
  from hc have "(0 + length num, suf, []) \<in> set (mt (Plus (Cls ?d)) (0, num @ suf, []))"
    by (intro mt_plus_cls_all) (auto simp: house_chars_def)
  from mt_Group_mem[OF this, of 1]
  have a1: "(length num, suf, [(1, num)]) \<in> set (mt (Group 1 (Plus (Cls ?d))) (0, p, []))"
    by (simp add: p)
  have "\<exists>i'. (i', [], [(1, num)]) \<in> set (mt (Opt (Cls is_alpha)) (length num, suf, [(1, num)]))"
    using sf by (auto simp: Opt_def)
  then obtain i' where
    "(i', [], [(1, num)]) \<in> set (mt (Opt (Cls is_alpha)) (length num, suf, [(1, num)]))" ..
  from mt_Group_mem[OF this, of 2]
  have a2: "(i', [], [(2, take (i' - length num) suf), (1, num)])
              \<in> set (mt (Group 2 (Opt (Cls is_alpha))) (length num, suf, [(1, num)]))" .
  have a3: "(i', [], [(2, take (i' - length num) suf), (1, num)])
              \<in> set (mt Eol (i', [], [(2, take (i' - length num) suf), (1, num)]))"
    by simp
  have "(i', [], [(2, take (i' - length num) suf), (1, num)]) \<in> set (mt house_no_pat (0, p, []))"
    unfolding house_no_pat_def seqs_simps mt_Seq_Eps mt_Seq_mem
    using a1 a2 a3 by (intro bexI[of _ "(0, p, [])"] bexI[OF _ a1] bexI[OF _ a2]) simp_all
  then show ?thesis by auto
qed

lemma letters_and_digits:
  "\<forall>c \<in> set ''0123456789/''. upper_char c = c \<and> c \<noteq> NL"
  "\<forall>c \<in> set (''ABCDEFGHIJKLMNOPQRSTUVWXYZ'' @ ''abcdefghijklmnopqrstuvwxyz'').
     is_upper (upper_char c) \<and> c \<noteq> NL"
  by code_simp+

lemma house_char_cases: "is_digit c \<or> c = CHR ''/'' \<Longrightarrow> c \<in> set ''0123456789/''"
  by (auto simp: is_digit_def)

lemma alpha_cases:
  "is_alpha c \<Longrightarrow> c \<in> set (''ABCDEFGHIJKLMNOPQRSTUVWXYZ'' @ ''abcdefghijklmnopqrstuvwxyz'')"
  unfolding is_alpha_def is_upper_def is_lower_def set_append by blast

lemma upper_char_house: "is_digit c \<or> c = CHR ''/'' \<Longrightarrow> upper_char c = c"
  using letters_and_digits(1) house_char_cases by blast

lemma upper_char_alpha: "is_alpha c \<Longrightarrow> is_upper (upper_char c)"
  using letters_and_digits(2) alpha_cases by blast

lemma upper_house_chars: "house_chars num \<Longrightarrow> upper num = num"
  by (simp add: house_chars_def upper_def map_idI upper_char_house)

lemma house_chars_no_NL: "house_chars num \<Longrightarrow> NL \<notin> set num"
  unfolding house_chars_def using letters_and_digits(1) house_char_cases by blast

lemma alpha_not_NL: "is_alpha c \<Longrightarrow> c \<noteq> NL"
  using letters_and_digits(2) alpha_cases by blast

lemma house_valid_no_NL: "house_valid p \<Longrightarrow> NL \<notin> set p"
proof -
  assume v: "house_valid p"
  show ?thesis
  proof (cases "house_chars p")
    case True
    then show ?thesis by (rule house_chars_no_NL)
  next
    case False
    with v have n: "p \<noteq> []" and a: "is_alpha (last p)" and h: "house_chars (butlast p)"
      by (auto simp: house_valid_def)
    from n have "p = butlast p @ [last p]" by simp
    then have "set p = set (butlast p) \<union> {last p}" by (metis set_append list.set(1,2) Un_insert_right sup_bot.right_neutral)
    with house_chars_no_NL[OF h] alpha_not_NL[OF a] show ?thesis by auto
  qed
qed

lemma house_prepared_Nil: "house_prepared [] = []"
  by code_simp

lemma normalize_house_no_cases:
  "raw \<noteq> [] \<Longrightarrow>
     normalize_house_no raw =
       (case re_match house_no_pat (house_prepared raw) of
          None \<Rightarrow> Inr []
        | Some m \<Rightarrow> and_then (groups m) (\<lambda>gs.
            case gs of [num, suf] \<Rightarrow> Inr (num @ upper suf) | _ \<Rightarrow> Inl ValueError))"
  by (simp add: normalize_house_no_def house_prepared_def Let_def)

lemma normalize_house_no_Nil: "normalize_house_no [] = Inr []"
  by (simp add: normalize_house_no_def)

lemma normalize_house_no_shape:
  assumes "normalize_house_no raw = Inr out"
  shows "out = [] \<or> house_shape out"
proof (cases "raw = []")
  case True
  with assms show ?thesis by (simp add: normalize_house_no_Nil)
next
  case False
  show ?thesis
  proof (cases "re_match house_no_pat (house_prepared raw)")
    case None
    with assms False show ?thesis by (simp add: normalize_house_no_cases)
  next
    case (Some m)
    from house_no_match[OF Some] obtain num suf where
      hc: "house_chars num" and sf: "suf = [] \<or> (\<exists>c. suf = [c] \<and> is_alpha c)"
      and g: "groups m = Inr [num, suf]" by blast
    from assms False Some g have out: "out = num @ upper suf"
      by (simp add: normalize_house_no_cases)
    from sf show ?thesis
    proof
      assume "suf = []"
      with out hc show ?thesis by (simp add: house_shape_def upper_def)
    next
      assume "\<exists>c. suf = [c] \<and> is_alpha c"
      then obtain c where "suf = [c]" "is_alpha c" by blast
      with out hc upper_char_alpha[of c] show ?thesis
        by (simp add: house_shape_def upper_def)
    qed
  qed
qed

lemma normalize_house_no_rejects:
  assumes "NL \<notin> set (house_prepared raw)" and "\<not> house_valid (house_prepared raw)"
  shows "normalize_house_no raw = Inr []"
proof (cases "raw = []")
  case True
  then show ?thesis by (simp add: normalize_house_no_Nil)
next
  case False
  have "re_match house_no_pat (house_prepared raw) = None"
  proof (rule ccontr)
    assume "re_match house_no_pat (house_prepared raw) \<noteq> None"
    then obtain m where "re_match house_no_pat (house_prepared raw) = Some m" by auto
    from house_no_match[OF this] obtain num suf rest where
      p: "house_prepared raw = num @ suf @ rest" and hc: "house_chars num"
      and sf: "suf = [] \<or> (\<exists>c. suf = [c] \<and> is_alpha c)" and r: "rest = [] \<or> rest = [NL]"
      by blast
    from assms(1) p r have "rest = []" by auto
    with p have p': "house_prepared raw = num @ suf" by simp
    from sf hc have "house_valid (num @ suf)"
      by (auto simp: house_valid_def)
    with assms(2) p' show False by simp
  qed
  with False show ?thesis by (simp add: normalize_house_no_cases)
qed

lemma normalize_house_no_accepts:
  assumes "house_valid (house_prepared raw)"
  shows "normalize_house_no raw = Inr (upper (house_prepared raw))"
proof -
  from assms have ne: "raw \<noteq> []" by (auto simp: house_prepared_Nil house_valid_def house_chars_def)
  from house_no_accepts[OF assms] obtain m where
    m: "re_match house_no_pat (house_prepared raw) = Some m"
    by (cases "mt house_no_pat (0, house_prepared raw, [])") (auto simp: re_match_def)
  from house_no_match[OF m] obtain num suf rest where
    p: "house_prepared raw = num @ suf @ rest" and hc: "house_chars num"
    and r: "rest = [] \<or> rest = [NL]" and g: "groups m = Inr [num, suf]"
    by blast
  from house_valid_no_NL[OF assms] p r have "rest = []" by auto
  with p have "upper (house_prepared raw) = upper num @ upper suf" by (simp add: upper_def)
  with upper_house_chars[OF hc] have "upper (house_prepared raw) = num @ upper suf" by simp
  with ne m g show ?thesis by (simp add: normalize_house_no_cases)
qed

lemma run_house_45a:
  "normalize_house_no ''45a'' = Inr ''45A''" "house_prepared ''45a'' = ''45a''"
  "\<not> house_shape ''45a''" "house_valid ''45a''" "upper ''45a'' = ''45A''" "house_shape ''45A''"
  by code_simp+

lemma run_house_more:
  "house_prepared ''12-5,a'' = ''12/5a''" "house_valid ''12/5a''" "upper ''12/5a'' = ''12/5A''"
  "house_shape ''12/5A''"
  "house_prepared ''No.7'' = ''No.7''" "\<not> house_valid ''No.7''" "NL \<notin> set ''No.7''"
  "normalize_house_no ''No.7'' = Inr []"
  by code_simp+

subsection \<open>Substitution\<close>

lemma sub_from_none:
  "mt r (i, s, []) = [] \<Longrightarrow>
     sub_from r repl i s = (case s of [] \<Rightarrow> [] | c # cs \<Rightarrow> c # sub_from r repl (Suc i) cs)"
  by (subst sub_from.simps) simp

lemma sub_from_some:
  "mt r (i, s, []) = st # rest \<Longrightarrow>
     sub_from r repl i s =
       repl @ (if length (fst (snd st)) < length s then sub_from r repl (fst st) (fst (snd st))
               else case s of [] \<Rightarrow> [] | c # cs \<Rightarrow> c # sub_from r repl (Suc i) cs)"
  by (subst sub_from.simps) simp

lemma sub_from_nomatch:
  "(\<And>j. j \<le> length t \<Longrightarrow> mt r (i + j, drop j t, []) = []) \<Longrightarrow> sub_from r repl i t = t"
proof (induction t arbitrary: i)
  case Nil
  from Nil[of 0] show ?case by (simp add: sub_from_none)
next
  case (Cons c cs)
  from Cons.prems[of 0] have h: "mt r (i, c # cs, []) = []" by simp
  have "sub_from r repl (Suc i) cs = cs"
  proof (rule Cons.IH)
    fix j assume "j \<le> length cs"
    with Cons.prems[of "Suc j"] show "mt r (Suc i + j, drop j cs, []) = []" by simp
  qed
  with h show ?case by (simp add: sub_from_none)
qed

subsection \<open>White space\<close>

lemma mt_spaces_Nil: "mt spaces_pat (i, [], g) = []"
  by (simp add: spaces_pat_def Plus_def)

lemma mt_spaces_nonspace: "\<not> is_space c \<Longrightarrow> mt spaces_pat (i, c # cs, g) = []"
  by (simp add: spaces_pat_def Plus_def)

lemma mt_spaces_space:
  "is_space c \<Longrightarrow>
     \<exists>rest. mt spaces_pat (i, c # cs, g) =
       (Suc i + length (takeWhile is_space cs), dropWhile is_space cs, g) # rest"
  by (simp add: spaces_pat_def Plus_def mt_star_cls dropWhile_eq_drop)

lemma sub_spaces_Nil: "sub_from spaces_pat '' '' i [] = []"
  by (simp add: sub_from_none mt_spaces_Nil)

lemma sub_spaces_nonspace:
  "\<not> is_space c \<Longrightarrow>
     sub_from spaces_pat '' '' i (c # cs) = c # sub_from spaces_pat '' '' (Suc i) cs"
  by (simp add: sub_from_none mt_spaces_nonspace)

lemma sub_spaces_space:
  assumes "is_space c"
  shows "sub_from spaces_pat '' '' i (c # cs) =
           CHR '' '' # sub_from spaces_pat '' '' (Suc i + length (takeWhile is_space cs))
                         (dropWhile is_space cs)"
proof -
  from mt_spaces_space[OF assms, of i cs "[]"] obtain rest where
    m: "mt spaces_pat (i, c # cs, []) =
          (Suc i + length (takeWhile is_space cs), dropWhile is_space cs, []) # rest" ..
  have "length (dropWhile is_space cs) < length (c # cs)"
    by (simp add: le_imp_less_Suc length_dropWhile_le)
  with sub_from_some[OF m, of "'' ''"] show ?thesis by simp
qed

lemma single_spaced_Cons_nonspace:
  "\<not> is_space c \<Longrightarrow> single_spaced (c # cs) = single_spaced cs"
  by (cases cs) simp_all

lemma single_spaced_Cons_space:
  "single_spaced (CHR '' '' # cs) = ((cs = [] \<or> \<not> is_space (hd cs)) \<and> single_spaced cs)"
  by (cases cs) (auto simp: is_space_def)

lemma sub_spaces_head:
  "s \<noteq> [] \<Longrightarrow> \<not> is_space (hd s) \<Longrightarrow>
     sub_from spaces_pat '' '' i s \<noteq> [] \<and> hd (sub_from spaces_pat '' '' i s) = hd s"
  by (cases s) (simp_all add: sub_spaces_nonspace)

lemma single_spaced_sub: "single_spaced (sub_from spaces_pat '' '' i s)"
proof (induction "length s" arbitrary: s i rule: less_induct)
  case less
  show ?case
  proof (cases s)
    case Nil
    then show ?thesis by (simp add: sub_spaces_Nil)
  next
    case (Cons c cs)
    show ?thesis
    proof (cases "is_space c")
      case False
      with less[of cs "Suc i"] Cons show ?thesis
        by (simp add: sub_spaces_nonspace single_spaced_Cons_nonspace)
    next
      case True
      let ?d = "dropWhile is_space cs"
      let ?j = "Suc i + length (takeWhile is_space cs)"
      have "length ?d < length s" using Cons by (simp add: le_imp_less_Suc length_dropWhile_le)
      then have ih: "single_spaced (sub_from spaces_pat '' '' ?j ?d)" by (rule less)
      have hd: "sub_from spaces_pat '' '' ?j ?d = [] \<or> \<not> is_space (hd (sub_from spaces_pat '' '' ?j ?d))"
      proof (cases "?d = []")
        case True
        then have "sub_from spaces_pat '' '' ?j ?d = []" by (simp only: sub_spaces_Nil)
        then show ?thesis by blast
      next
        case False
        then have "\<not> is_space (hd ?d)" by (rule hd_dropWhile)
        with sub_spaces_head[OF False this, of ?j] show ?thesis by simp
      qed
      from ih hd Cons True show ?thesis
        by (simp add: sub_spaces_space single_spaced_Cons_space)
    qed
  qed
qed

lemma sub_spaces_id: "single_spaced t \<Longrightarrow> sub_from spaces_pat '' '' i t = t"
proof (induction t arbitrary: i rule: single_spaced.induct)
  case 1
  show ?case by (simp add: sub_spaces_Nil)
next
  case (2 c)
  then show ?case
    by (cases "is_space c") (simp_all add: sub_spaces_space sub_spaces_nonspace sub_spaces_Nil)
next
  case (3 c d cs)
  then show ?case
    by (cases "is_space c") (simp_all add: sub_spaces_space sub_spaces_nonspace)
qed

lemma single_spaced_append: "single_spaced (a @ b) \<Longrightarrow> single_spaced a \<and> single_spaced b"
proof (induction a rule: single_spaced.induct)
  case 1
  then show ?case by simp
next
  case (2 c)
  then show ?case by (cases b) auto
next
  case (3 c d cs)
  then show ?case by auto
qed

lemma single_spaced_take: "single_spaced t \<Longrightarrow> single_spaced (take k t)"
  using single_spaced_append[of "take k t" "drop k t"] by simp

lemma single_spaced_drop: "single_spaced t \<Longrightarrow> single_spaced (drop k t)"
  using single_spaced_append[of "take k t" "drop k t"] by simp

lemma single_spaced_space: "single_spaced t \<Longrightarrow> c \<in> set t \<Longrightarrow> is_space c \<Longrightarrow> c = CHR '' ''"
  by (induction t rule: single_spaced.induct) auto

lemma single_spaced_no_NL: "single_spaced t \<Longrightarrow> NL \<notin> set t"
  using single_spaced_space[of t NL] by (auto simp: is_space_def NL_def)

subsection \<open>Trimming\<close>

lemma rstrip_chars_take: "rstrip_chars cs t = take (length (rstrip_chars cs t)) t"
proof -
  let ?n = "length (takeWhile (\<lambda>c. c \<in> set cs) (rev t))"
  have "rstrip_chars cs t = rev (drop ?n (rev t))"
    by (simp add: rstrip_chars_def dropWhile_eq_drop)
  also have "\<dots> = take (length t - ?n) t" by (simp add: rev_drop)
  finally have e: "rstrip_chars cs t = take (length t - ?n) t" .
  then have "length (rstrip_chars cs t) = length t - ?n" by simp
  with e show ?thesis by simp
qed

lemma rstrip_as_chars: "rstrip t = rev (dropWhile is_space (rev t))"
  by (simp add: rstrip_def)

lemma rstrip_take: "rstrip t = take (length (rstrip t)) t"
proof -
  let ?n = "length (takeWhile is_space (rev t))"
  have "rstrip t = rev (drop ?n (rev t))"
    by (simp add: rstrip_def dropWhile_eq_drop)
  also have "\<dots> = take (length t - ?n) t" by (simp add: rev_drop)
  finally have e: "rstrip t = take (length t - ?n) t" .
  then have "length (rstrip t) = length t - ?n" by simp
  with e show ?thesis by simp
qed

lemma lstrip_drop: "lstrip t = drop (length (takeWhile is_space t)) t"
  by (simp add: lstrip_def dropWhile_eq_drop)

lemma lstrip_id: "t = [] \<or> \<not> is_space (hd t) \<Longrightarrow> lstrip t = t"
  by (cases t) (auto simp: lstrip_def)

lemma rstrip_id: "t = [] \<or> \<not> is_space (last t) \<Longrightarrow> rstrip t = t"
proof (cases "t = []")
  case True
  then show ?thesis by (simp add: rstrip_def)
next
  case False
  assume "t = [] \<or> \<not> is_space (last t)"
  with False have "\<not> is_space (hd (rev t))" by (simp add: hd_rev)
  moreover from False have "rev t \<noteq> []" by simp
  ultimately have "dropWhile is_space (rev t) = rev t" by (cases "rev t") auto
  then show ?thesis by (simp add: rstrip_def)
qed

lemma rstrip_chars_id: "t = [] \<or> last t \<notin> set cs \<Longrightarrow> rstrip_chars cs t = t"
proof (cases "t = []")
  case True
  then show ?thesis by (simp add: rstrip_chars_def)
next
  case False
  assume "t = [] \<or> last t \<notin> set cs"
  with False have "hd (rev t) \<notin> set cs" by (simp add: hd_rev)
  moreover from False have "rev t \<noteq> []" by simp
  ultimately have "dropWhile (\<lambda>c. c \<in> set cs) (rev t) = rev t" by (cases "rev t") auto
  then show ?thesis by (simp add: rstrip_chars_def)
qed

lemma rstrip_chars_shorter:
  assumes "t \<noteq> []" and "last t \<in> set cs"
  shows "length (rstrip_chars cs t) < length t"
proof -
  from assms have "rev t \<noteq> []" "hd (rev t) \<in> set cs" by (simp_all add: hd_rev)
  then obtain c r where r: "rev t = c # r" "c \<in> set cs" by (cases "rev t") auto
  then have "length (dropWhile (\<lambda>c. c \<in> set cs) (rev t)) \<le> length r"
    by (simp add: length_dropWhile_le)
  moreover from r(1) have "length t = Suc (length r)" by (metis length_Cons length_rev)
  ultimately show ?thesis by (simp add: rstrip_chars_def)
qed

lemma lstrip_head: "lstrip t = [] \<or> \<not> is_space (hd (lstrip t))"
  unfolding lstrip_def using hd_dropWhile[of is_space t] by blast

lemma rstrip_last: "rstrip t = [] \<or> \<not> is_space (last (rstrip t))"
proof (cases "dropWhile is_space (rev t) = []")
  case True
  then show ?thesis by (simp add: rstrip_def)
next
  case False
  from hd_dropWhile[OF False] False show ?thesis by (simp add: rstrip_def last_rev)
qed

lemma take_head: "t = [] \<or> \<not> is_space (hd t) \<Longrightarrow> take k t = [] \<or> \<not> is_space (hd (take k t))"
  by (cases t; cases k) auto

lemma length_rstrip: "length (rstrip t) \<le> length t"
  by (simp add: rstrip_def length_dropWhile_le[of is_space "rev t", simplified])

lemma length_lstrip: "length (lstrip t) \<le> length t"
  by (simp add: lstrip_def length_dropWhile_le)

lemma length_strip: "length (strip t) \<le> length t"
  unfolding strip_def using length_rstrip[of "lstrip t"] length_lstrip[of t] by simp

lemma strip_head: "strip t = [] \<or> \<not> is_space (hd (strip t))"
proof -
  have "strip t = take (length (strip t)) (lstrip t)"
    unfolding strip_def by (rule rstrip_take)
  with take_head[OF lstrip_head, of "length (strip t)" t] show ?thesis by simp
qed

lemma strip_last: "strip t = [] \<or> \<not> is_space (last (strip t))"
  unfolding strip_def by (rule rstrip_last)

lemma strip_id:
  "t = [] \<or> \<not> is_space (hd t) \<Longrightarrow> t = [] \<or> \<not> is_space (last t) \<Longrightarrow> strip t = t"
  by (simp add: strip_def lstrip_id rstrip_id)

lemma strip_take:
  "t = [] \<or> \<not> is_space (hd t) \<Longrightarrow> strip t = take (length (strip t)) t"
  using rstrip_take[of t] by (simp add: strip_def lstrip_id)

lemma single_spaced_strip: "single_spaced t \<Longrightarrow> single_spaced (strip t)"
proof -
  assume "single_spaced t"
  then have "single_spaced (lstrip t)" by (simp add: lstrip_drop single_spaced_drop)
  then have "single_spaced (take (length (rstrip (lstrip t))) (lstrip t))"
    by (rule single_spaced_take)
  then show ?thesis unfolding strip_def using rstrip_take[of "lstrip t"] by simp
qed

lemma single_spaced_rstrip_chars: "single_spaced t \<Longrightarrow> single_spaced (rstrip_chars cs t)"
  using rstrip_chars_take[of cs t] single_spaced_take[of t "length (rstrip_chars cs t)"] by simp

subsection \<open>The tail pattern\<close>

lemma hd_concat_map:
  "(\<And>x. x \<in> set xs \<Longrightarrow> f x = [] \<or> P (hd (f x))) \<Longrightarrow>
     concat (map f xs) = [] \<or> P (hd (concat (map f xs)))"
proof (induction xs)
  case Nil
  then show ?case by simp
next
  case (Cons x xs)
  from Cons.prems[of x] have x: "f x = [] \<or> P (hd (f x))" by simp
  from Cons.IH Cons.prems have r: "concat (map f xs) = [] \<or> P (hd (concat (map f xs)))"
    by simp
  show ?case
  proof (cases "f x = []")
    case True
    with r show ?thesis by simp
  next
    case False
    with x show ?thesis by simp
  qed
qed

lemma eats_all_Seq:
  assumes "eats_all r2"
  shows "eats_all (Seq r1 r2)"
  unfolding eats_all_def
proof (intro allI impI)
  fix i s g assume nl: "NL \<notin> set s"
  have "concat (map (mt r2) (mt r1 (i, s, g))) = []
        \<or> fst (snd (hd (concat (map (mt r2) (mt r1 (i, s, g)))))) = []"
  proof (rule hd_concat_map)
    fix x assume "x \<in> set (mt r1 (i, s, g))"
    from mt_consumed[OF this] obtain w where "s = w @ fst (snd x)" by auto
    with nl have "NL \<notin> set (fst (snd x))" by (metis Un_iff set_append)
    with assms show "mt r2 x = [] \<or> fst (snd (hd (mt r2 x))) = []"
      unfolding eats_all_def by (metis prod.collapse)
  qed
  then show "mt (Seq r1 r2) (i, s, g) = [] \<or> fst (snd (hd (mt (Seq r1 r2) (i, s, g)))) = []"
    by simp
qed

lemma eats_all_Group:
  assumes "eats_all r"
  shows "eats_all (Group n r)"
  unfolding eats_all_def
proof (intro allI impI)
  fix i s g assume nl: "NL \<notin> set s"
  with assms have c: "mt r (i, s, g) = [] \<or> fst (snd (hd (mt r (i, s, g)))) = []"
    unfolding eats_all_def by blast
  show "mt (Group n r) (i, s, g) = [] \<or> fst (snd (hd (mt (Group n r) (i, s, g)))) = []"
  proof (cases "mt r (i, s, g)")
    case Nil
    then show ?thesis by simp
  next
    case (Cons x xs)
    with c show ?thesis by (cases x) simp
  qed
qed

lemma eats_all_Star: "eats_all (Star (Cls (\<lambda>c. c \<noteq> NL)))"
  unfolding eats_all_def
proof (intro allI impI)
  fix i s g assume nl: "NL \<notin> set s"
  then have tw: "takeWhile (\<lambda>c. c \<noteq> NL) s = s" by (auto simp: takeWhile_eq_all_conv)
  show "mt (Star (Cls (\<lambda>c. c \<noteq> NL))) (i, s, g) = []
        \<or> fst (snd (hd (mt (Star (Cls (\<lambda>c. c \<noteq> NL))) (i, s, g)))) = []"
    unfolding mt_star_cls tw by simp
qed

lemma eats_all_Seq_Eps: "eats_all r \<Longrightarrow> eats_all (Seq r Eps)"
  unfolding eats_all_def mt_Seq_Eps .

lemma eats_all_name_tail: "eats_all name_tail_pat"
  unfolding name_tail_pat_def seqs_simps
  by (rule eats_all_Seq, rule eats_all_Seq_Eps, rule eats_all_Group, rule eats_all_Seq,
      rule eats_all_Seq, rule eats_all_Seq, rule eats_all_Seq_Eps, rule eats_all_Star)

lemma mt_name_tail_Nil: "mt name_tail_pat (i, [], g) = []"
  by (simp add: name_tail_pat_def mt_star_cls lit_ci_def)

lemma no_eol_name_tail: "no_eol name_tail_pat"
  by (simp add: name_tail_pat_def lit_ci_def oneof_def)

lemma ext_simps [simp]: "ext v (i, s, g) = (i, s @ v, g)"
  by (simp add: ext_def)

lemma mt_extend:
  "st' \<in> set (mt r st) \<Longrightarrow> no_eol r \<Longrightarrow> ext v st' \<in> set (mt r (ext v st))"
proof (induction r st arbitrary: st' rule: mt.induct)
  case (1 p i s g)
  then show ?case by (auto split: list.splits if_splits)
next
  case (2 st)
  then show ?case by simp
next
  case (3 r1 r2 st)
  from "3.prems" obtain st1 where a: "st1 \<in> set (mt r1 st)" and b: "st' \<in> set (mt r2 st1)"
    by auto
  from "3.prems"(2) have n: "no_eol r1" "no_eol r2" by simp_all
  from "3.IH"(1)[OF a n(1)] "3.IH"(2)[OF a b n(2)] show ?case by auto
next
  case (4 r1 r2 st)
  from "4.prems" consider "st' \<in> set (mt r1 st)" | "st' \<in> set (mt r2 st)" by auto
  then show ?case
  proof cases
    case 1
    from "4.IH"(1)[OF 1] "4.prems"(2) show ?thesis by simp
  next
    case 2
    from "4.IH"(2)[OF 2] "4.prems"(2) show ?thesis by simp
  qed
next
  case (5 r st)
  from "5.prems"(2) have n: "no_eol r" by simp
  show ?case
  proof (cases "st' = st")
    case True
    then show ?thesis by (subst mt_Star_unfold) simp
  next
    case False
    with "5.prems" obtain st1 where a: "st1 \<in> set (mt r st)"
      and l: "length (fst (snd st1)) < length (fst (snd st))"
      and b: "st' \<in> set (mt (Star r) st1)"
      by (subst (asm) mt_Star_unfold) (auto split: if_splits)
    from l have l': "length (fst (snd (ext v st1))) < length (fst (snd (ext v st)))"
      by (simp add: ext_def)
    from "5.IH"(1)[OF a n] "5.IH"(2)[OF a l b "5.prems"(2)] l'
    show ?thesis by (subst mt_Star_unfold) force
  qed
next
  case (6 r st)
  from "6.prems"(2) have n: "no_eol r" by simp
  show ?case
  proof (cases "st' = st")
    case True
    then show ?thesis by (subst mt_LazyStar_unfold) simp
  next
    case False
    with "6.prems" obtain st1 where a: "st1 \<in> set (mt r st)"
      and l: "length (fst (snd st1)) < length (fst (snd st))"
      and b: "st' \<in> set (mt (LazyStar r) st1)"
      by (subst (asm) mt_LazyStar_unfold) (auto split: if_splits)
    from l have l': "length (fst (snd (ext v st1))) < length (fst (snd (ext v st)))"
      by (simp add: ext_def)
    from "6.IH"(1)[OF a n] "6.IH"(2)[OF a l b "6.prems"(2)] l'
    show ?thesis by (subst mt_LazyStar_unfold) force
  qed
next
  case (7 n r i s g)
  from "7.prems" obtain i' s' g' where a: "(i', s', g') \<in> set (mt r (i, s, g))"
    and st': "st' = (i', s', (n, take (i' - i) s) # g')"
    by auto
  from mt_consumed[OF a] have "i' - i \<le> length s" by auto
  then have t: "take (i' - i) (s @ v) = take (i' - i) s" by simp
  from "7.IH"[OF a] "7.prems"(2) have "(i', s' @ v, g') \<in> set (mt r (i, s @ v, g))" by simp
  from mt_Group_mem[OF this, of n]
  have "(i', s' @ v, (n, take (i' - i) s) # g') \<in> set (mt (Group n r) (i, s @ v, g))"
    unfolding t .
  then show ?case unfolding st' ext_simps .
next
  case (8 i s g)
  then show ?case by (auto split: if_splits)
next
  case (9 i s g)
  then show ?case by simp
qed

lemma mt_extend_nonempty:
  assumes "mt r (i, u, g) \<noteq> []" and "no_eol r"
  shows "mt r (i, u @ v, g) \<noteq> []"
proof -
  from assms(1) obtain st' where "st' \<in> set (mt r (i, u, g))" by (cases "mt r (i, u, g)") auto
  from mt_extend[OF this assms(2), of v] show ?thesis by auto
qed

lemma sub_name_tail_prefix:
  "NL \<notin> set t \<Longrightarrow>
     \<exists>k \<le> length t. sub_from name_tail_pat [] i t = take k t
        \<and> (\<forall>j < k. mt name_tail_pat (i + j, drop j t, []) = [])"
proof (induction t arbitrary: i)
  case Nil
  show ?case by (simp add: sub_from_none mt_name_tail_Nil)
next
  case (Cons c cs)
  show ?case
  proof (cases "mt name_tail_pat (i, c # cs, [])")
    case Nil
    from Cons.prems have "NL \<notin> set cs" by simp
    from Cons.IH[OF this, of "Suc i"] obtain k where
      k: "k \<le> length cs" "sub_from name_tail_pat [] (Suc i) cs = take k cs"
         "\<forall>j < k. mt name_tail_pat (Suc i + j, drop j cs, []) = []"
      by blast
    have "\<forall>j < Suc k. mt name_tail_pat (i + j, drop j (c # cs), []) = []"
    proof (intro allI impI)
      fix j assume "j < Suc k"
      show "mt name_tail_pat (i + j, drop j (c # cs), []) = []"
      proof (cases j)
        case 0
        with Nil show ?thesis by simp
      next
        case (Suc j')
        with \<open>j < Suc k\<close> k(3) show ?thesis by simp
      qed
    qed
    moreover have "sub_from name_tail_pat [] i (c # cs) = take (Suc k) (c # cs)"
      using Nil k(2) by (simp add: sub_from_none)
    ultimately show ?thesis using k(1) by (intro exI[of _ "Suc k"]) simp
  next
    case (Cons st rest)
    from eats_all_name_tail Cons.prems Cons have e: "fst (snd st) = []"
      unfolding eats_all_def by (metis list.sel(1) list.distinct(1))
    have "sub_from name_tail_pat [] (fst st) [] = []"
      by (simp add: sub_from_none mt_name_tail_Nil)
    with sub_from_some[OF Cons, of "[]"] e
    have "sub_from name_tail_pat [] i (c # cs) = []" by simp
    then show ?thesis by (intro exI[of _ 0]) simp
  qed
qed

lemma length_sub_name_tail: "NL \<notin> set t \<Longrightarrow> length (sub_from name_tail_pat [] i t) \<le> length t"
  using sub_name_tail_prefix[of t i] by auto

subsection \<open>The result of clean\<close>

lemma clean_Nil: "clean [] = []"
  by (simp add: clean_def)

lemma clean_Cons:
  "s \<noteq> [] \<Longrightarrow>
     clean s = strip (sub_from name_tail_pat [] 0
                 (strip (rstrip_chars ''-~'' (strip (sub_from spaces_pat '' '' 0 s)))))"
  by (simp add: clean_def Let_def re_sub_def)

lemma clean_form:
  "\<exists>s1 K. single_spaced s1 \<and> (s1 = [] \<or> \<not> is_space (hd s1)) \<and> K \<le> length s1
         \<and> clean s = take K s1
         \<and> (\<forall>j < K. mt name_tail_pat (j, drop j s1, []) = [])
         \<and> (clean s = [] \<or> \<not> is_space (last (clean s)))"
proof (cases "s = []")
  case True
  show ?thesis
    by (rule exI[of _ "[]"], rule exI[of _ 0]) (simp add: True clean_Nil)
next
  case False
  let ?s1 = "strip (rstrip_chars ''-~'' (strip (sub_from spaces_pat '' '' 0 s)))"
  let ?d = "sub_from name_tail_pat [] 0 ?s1"
  have ss: "single_spaced ?s1"
    by (intro single_spaced_strip single_spaced_rstrip_chars single_spaced_sub)
  have hd1: "?s1 = [] \<or> \<not> is_space (hd ?s1)" by (rule strip_head)
  from single_spaced_no_NL[OF ss] sub_name_tail_prefix[of ?s1 0] obtain k where
    k: "k \<le> length ?s1" "?d = take k ?s1"
       "\<forall>j < k. mt name_tail_pat (j, drop j ?s1, []) = []"
    by auto
  have c: "clean s = strip ?d" using False by (simp add: clean_Cons)
  from take_head[OF hd1, of k] k(2) have hdd: "?d = [] \<or> \<not> is_space (hd ?d)" by simp
  let ?K = "length (strip ?d)"
  from strip_take[OF hdd] have "strip ?d = take ?K ?d" .
  moreover have Kk: "?K \<le> k" using length_strip[of ?d] k(1,2) by simp
  ultimately have t: "clean s = take ?K ?s1" using c k(2) by (simp add: min_absorb1)
  from Kk k(1) have Kl: "?K \<le> length ?s1" by simp
  from Kk k(3) have nm: "\<forall>j < ?K. mt name_tail_pat (j, drop j ?s1, []) = []" by simp
  from strip_last[of ?d] c have la: "clean s = [] \<or> \<not> is_space (last (clean s))" by simp
  show ?thesis
    by (rule exI[of _ ?s1], rule exI[of _ ?K]) (intro conjI ss hd1 Kl t nm la)
qed

lemma clean_fix:
  assumes "clean s = [] \<or> last (clean s) \<notin> set ''-~''"
  shows "clean (clean s) = clean s"
proof (cases "clean s = []")
  case True
  then show ?thesis by (simp add: clean_Nil)
next
  case False
  from clean_form[of s] obtain s1 K where
    ss: "single_spaced s1" and hd1: "s1 = [] \<or> \<not> is_space (hd s1)" and Kl: "K \<le> length s1"
    and t: "clean s = take K s1"
    and nm: "\<forall>j < K. mt name_tail_pat (j, drop j s1, []) = []"
    and la: "clean s = [] \<or> \<not> is_space (last (clean s))"
    by blast
  let ?t = "clean s"
  have sst: "single_spaced ?t" unfolding t using ss by (rule single_spaced_take)
  have hdt: "?t = [] \<or> \<not> is_space (hd ?t)" unfolding t using hd1 by (rule take_head)
  have a: "sub_from spaces_pat '' '' 0 ?t = ?t" using sst by (rule sub_spaces_id)
  have b: "strip ?t = ?t" using hdt la by (rule strip_id)
  have c: "rstrip_chars ''-~'' ?t = ?t" using assms by (rule rstrip_chars_id)
  have lt: "length ?t = K" using t Kl by simp
  have d: "sub_from name_tail_pat [] 0 ?t = ?t"
  proof (rule sub_from_nomatch)
    fix j assume j: "j \<le> length ?t"
    show "mt name_tail_pat (0 + j, drop j ?t, []) = []"
    proof (cases "j = length ?t")
      case True
      then show ?thesis by (simp add: mt_name_tail_Nil)
    next
      case False
      with j lt have jK: "j < K" by simp
      have e: "drop j ?t @ drop K s1 = drop j s1"
      proof -
        have "drop j s1 = drop j (take K s1 @ drop K s1)" by simp
        also have "\<dots> = drop j (take K s1) @ drop K s1"
          using jK Kl by (simp only: drop_append) simp
        finally show ?thesis by (simp add: t)
      qed
      show ?thesis
      proof (rule ccontr)
        assume "mt name_tail_pat (0 + j, drop j ?t, []) \<noteq> []"
        then have "mt name_tail_pat (j, drop j ?t, []) \<noteq> []" by simp
        from mt_extend_nonempty[OF this no_eol_name_tail, of "drop K s1"]
        have "mt name_tail_pat (j, drop j s1, []) \<noteq> []" unfolding e .
        with nm jK show False by blast
      qed
    qed
  qed
  from False have "clean ?t = strip (sub_from name_tail_pat [] 0
                     (strip (rstrip_chars ''-~'' (strip (sub_from spaces_pat '' '' 0 ?t)))))"
    by (rule clean_Cons)
  then show ?thesis by (simp only: a b c d)
qed

lemma clean_shrinks:
  assumes ne: "clean s \<noteq> []" and la: "last (clean s) \<in> set ''-~''"
  shows "length (clean (clean s)) < length (clean s)"
proof -
  from clean_form[of s] obtain s1 K where
    ss: "single_spaced s1" and hd1: "s1 = [] \<or> \<not> is_space (hd s1)"
    and t: "clean s = take K s1"
    and ls: "clean s = [] \<or> \<not> is_space (last (clean s))"
    by blast
  let ?t = "clean s"
  have sst: "single_spaced ?t" unfolding t using ss by (rule single_spaced_take)
  have hdt: "?t = [] \<or> \<not> is_space (hd ?t)" unfolding t using hd1 by (rule take_head)
  have a: "sub_from spaces_pat '' '' 0 ?t = ?t" using sst by (rule sub_spaces_id)
  have b: "strip ?t = ?t" using hdt ls by (rule strip_id)
  let ?c = "rstrip_chars ''-~'' ?t"
  let ?x = "strip ?c"
  have l1: "length ?c < length ?t" using ne la by (rule rstrip_chars_shorter)
  have l2: "length ?x \<le> length ?c" by (rule length_strip)
  have "single_spaced ?x" by (intro single_spaced_strip single_spaced_rstrip_chars sst)
  then have "NL \<notin> set ?x" by (rule single_spaced_no_NL)
  then have l3: "length (sub_from name_tail_pat [] 0 ?x) \<le> length ?x"
    by (rule length_sub_name_tail)
  have l4: "length (strip (sub_from name_tail_pat [] 0 ?x)) \<le> length (sub_from name_tail_pat [] 0 ?x)"
    by (rule length_strip)
  from ne have "clean ?t = strip (sub_from name_tail_pat [] 0
                  (strip (rstrip_chars ''-~'' (strip (sub_from spaces_pat '' '' 0 ?t)))))"
    by (rule clean_Cons)
  then have "clean ?t = strip (sub_from name_tail_pat [] 0 ?x)" by (simp only: a b)
  with l1 l2 l3 l4 show ?thesis by simp
qed

lemma run_clean:
  "clean ''a- Name:x'' = ''a-''" "clean ''a-'' = ''a''"
  "clean '' RAMESH   KUMAR -'' = ''RAMESH KUMAR''"
  "clean ''RAMESH KUMAR'' = ''RAMESH KUMAR''"
  "clean ''RAMESH KUMAR~ Name: X'' = ''RAMESH KUMAR~''"
  "clean ''RAMESH KUMAR~'' = ''RAMESH KUMAR''"
  by code_simp+

subsection \<open>Texts that a pattern accepts\<close>

lemma acceptsD: "accepts r w \<Longrightarrow> (i + length w, s, g) \<in> set (mt r (i, w @ s, g))"
  by (simp add: accepts_def)

lemma accepts_Eps: "accepts Eps []"
  by (simp add: accepts_def)

lemma accepts_Seq:
  assumes "accepts a u" and "accepts b v"
  shows "accepts (Seq a b) (u @ v)"
  unfolding accepts_def
proof (intro allI)
  fix i s g
  from acceptsD[OF assms(1), of i "v @ s" g]
  have 1: "(i + length u, v @ s, g) \<in> set (mt a (i, u @ v @ s, g))" .
  from acceptsD[OF assms(2), of "i + length u" s g]
  have 2: "(i + length u + length v, s, g) \<in> set (mt b (i + length u, v @ s, g))" .
  from 1 2 show "(i + length (u @ v), s, g) \<in> set (mt (Seq a b) (i, (u @ v) @ s, g))"
    by (simp only: mt_Seq_mem append_assoc length_append add.assoc) blast
qed

lemma accepts_seqs_Nil: "accepts (seqs []) []"
  by (simp add: accepts_Eps)

lemma accepts_seqs_Cons: "accepts r u \<Longrightarrow> accepts (seqs rs) v \<Longrightarrow> accepts (seqs (r # rs)) (u @ v)"
  by (simp only: seqs_simps accepts_Seq)

lemma accepts_lit: "accepts (lit l) l"
  by (simp add: accepts_def mt_lit)

lemma accepts_Cls: "p c \<Longrightarrow> accepts (Cls p) [c]"
  by (simp add: accepts_def)

lemma accepts_oneof: "c \<in> set cs \<Longrightarrow> accepts (oneof cs) [c]"
  by (simp add: oneof_def accepts_Cls)

lemma accepts_Opt: "accepts r w \<Longrightarrow> accepts (Opt r) w" "accepts (Opt r) []"
  by (simp_all add: accepts_def Opt_def)

lemma accepts_Alt: "accepts a w \<Longrightarrow> accepts (Alt a b) w" "accepts b w \<Longrightarrow> accepts (Alt a b) w"
  by (simp_all add: accepts_def)

lemma accepts_Star_Cls:
  assumes "\<forall>c \<in> set w. p c"
  shows "accepts (Star (Cls p)) w"
  unfolding accepts_def
proof (intro allI)
  fix i s g
  from assms have "takeWhile p (w @ s) = w @ takeWhile p s" by (simp add: takeWhile_append2)
  then have "length w \<le> length (takeWhile p (w @ s))" by simp
  from mt_star_cls_mem[OF this, of i g]
  show "(i + length w, s, g) \<in> set (mt (Star (Cls p)) (i, w @ s, g))" by simp
qed

lemma accepts_Plus_Cls:
  "w \<noteq> [] \<Longrightarrow> \<forall>c \<in> set w. p c \<Longrightarrow> accepts (Plus (Cls p)) w"
  unfolding accepts_def using mt_plus_cls_all[of w p] by blast

lemma accepts_spaces: "all_space w \<Longrightarrow> accepts (Star (Cls is_space)) w"
  unfolding all_space_def by (rule accepts_Star_Cls)

lemma label_value_accepts:
  assumes l: "accepts (seqs label) lbl" and w1: "all_space ws1" and c: "c \<in> set '':+!''"
    and w2: "all_space ws2" and v: "accepts val v"
  shows "mt (label_value label val) (i, lbl @ ws1 @ [c] @ ws2 @ v @ post, []) \<noteq> []"
proof -
  let ?i4 = "i + length lbl + length ws1 + 1 + length ws2"
  from acceptsD[OF l, of i "ws1 @ [c] @ ws2 @ v @ post" "[]"]
  have a1: "(i + length lbl, ws1 @ [c] @ ws2 @ v @ post, [])
              \<in> set (mt (seqs label) (i, lbl @ ws1 @ [c] @ ws2 @ v @ post, []))" .
  from acceptsD[OF accepts_spaces[OF w1], of "i + length lbl" "[c] @ ws2 @ v @ post" "[]"]
  have a2: "(i + length lbl + length ws1, [c] @ ws2 @ v @ post, [])
              \<in> set (mt (Star (Cls is_space)) (i + length lbl, ws1 @ [c] @ ws2 @ v @ post, []))" .
  from acceptsD[OF accepts_oneof[OF c], of "i + length lbl + length ws1" "ws2 @ v @ post" "[]"]
  have a3: "(i + length lbl + length ws1 + 1, ws2 @ v @ post, [])
              \<in> set (mt (oneof '':+!'') (i + length lbl + length ws1, [c] @ ws2 @ v @ post, []))"
    by simp
  from acceptsD[OF accepts_spaces[OF w2], of "i + length lbl + length ws1 + 1" "v @ post" "[]"]
  have a4: "(?i4, v @ post, [])
              \<in> set (mt (Star (Cls is_space)) (i + length lbl + length ws1 + 1, ws2 @ v @ post, []))" .
  from acceptsD[OF v, of ?i4 post "[]"]
  have "(?i4 + length v, post, []) \<in> set (mt val (?i4, v @ post, []))" .
  from mt_Group_mem[OF this, of 1]
  have a5: "(?i4 + length v, post, [(1, take (?i4 + length v - ?i4) (v @ post))])
              \<in> set (mt (Group 1 val) (?i4, v @ post, []))" .
  have "(?i4 + length v, post, [(1, take (?i4 + length v - ?i4) (v @ post))])
          \<in> set (mt (seqs [Star (Cls is_space), oneof '':+!'', Star (Cls is_space), Group 1 val])
                   (i + length lbl, ws1 @ [c] @ ws2 @ v @ post, []))"
    unfolding seqs_simps mt_Seq_Eps mt_Seq_mem
    using a2 a3 a4 a5 by blast
  with a1 have "(?i4 + length v, post, [(1, take (?i4 + length v - ?i4) (v @ post))])
          \<in> set (mt (label_value label val) (i, lbl @ ws1 @ [c] @ ws2 @ v @ post, []))"
    unfolding label_value_def mt_seqs_append_mem by blast
  then show ?thesis by auto
qed

lemma re_search_found:
  assumes "mt r (length pre, u, []) \<noteq> []"
  shows "re_search r (pre @ u) \<noteq> None"
proof
  assume "re_search r (pre @ u) = None"
  then have "search_from r 0 (pre @ u) = None" by (simp add: re_search_def)
  from search_from_NoneD[OF this, of "length pre"] assms show False by simp
qed

lemma has_labelledI:
  assumes h: "has_labelled lab val b"
    and l: "\<And>w. lab w \<Longrightarrow> accepts (seqs label) w" and v: "\<And>w. val w \<Longrightarrow> accepts rv w"
  shows "re_search (label_value label rv) b \<noteq> None"
proof -
  from h obtain pre lbl ws1 c ws2 w post where
    b: "b = pre @ lbl @ ws1 @ [c] @ ws2 @ w @ post"
    and p: "lab lbl" "all_space ws1" "c \<in> set '':+!''" "all_space ws2" "val w"
    unfolding has_labelled_def by blast
  from label_value_accepts[OF l[OF p(1)] p(2,3,4) v[OF p(5)], of "length pre" post]
  show ?thesis unfolding b by (rule re_search_found)
qed

lemma labelled_has: "labelled lab val b m \<Longrightarrow> has_labelled lab val b"
  unfolding labelled_def has_labelled_def by blast

lemma accepts_single_label: "w = l \<Longrightarrow> accepts (seqs [lit l]) w"
  using accepts_seqs_Cons[OF accepts_lit accepts_seqs_Nil, of l] by simp

lemma accepts_relation_label:
  assumes "relation_label rel w"
  shows "accepts (seqs [lit rel, Opt (lit APOS_S), lit '' Name'']) w"
proof -
  from assms consider "w = rel @ [] @ '' Name'' @ []" | "w = rel @ APOS_S @ '' Name'' @ []"
    by (auto simp: relation_label_def)
  then show ?thesis
  proof cases
    case 1
    show ?thesis unfolding 1
      by (intro accepts_seqs_Cons accepts_seqs_Nil accepts_lit accepts_Opt(2))
  next
    case 2
    show ?thesis unfolding 2
      by (intro accepts_seqs_Cons accepts_seqs_Nil accepts_lit accepts_Opt(1))
  qed
qed

lemma accepts_house_label:
  assumes "house_label w"
  shows "accepts (seqs [lit ''House'', Star (Cls is_space), lit ''Number'']) w"
proof -
  from assms obtain ws where ws: "all_space ws" and w: "w = ''House'' @ ws @ ''Number'' @ []"
    by (auto simp: house_label_def)
  show ?thesis unfolding w
    by (intro accepts_seqs_Cons accepts_seqs_Nil accepts_lit accepts_spaces ws)
qed

lemma accepts_values:
  "line_text v \<Longrightarrow> accepts (Plus (Cls (\<lambda>c. c \<noteq> NL))) v"
  "word_text v \<Longrightarrow> accepts (Plus (Cls (\<lambda>c. c \<noteq> NL \<and> c \<noteq> CHR '' ''))) v"
  "digits_text v \<Longrightarrow> accepts (Plus (Cls is_digit)) v"
  by (auto simp: line_text_def word_text_def digits_text_def intro!: accepts_Plus_Cls)

lemma accepts_gender_token:
  assumes "gender_token v"
  shows "accepts (Alt (lit ''Male'') (Alt (lit ''Female'') (Alt (lit TAMIL_MALE) (lit TAMIL_FEMALE)))) v"
proof -
  from assms consider "v = ''Male''" | "v = ''Female''" | "v = TAMIL_MALE" | "v = TAMIL_FEMALE"
    by (auto simp: gender_token_def)
  then show ?thesis
  proof cases
    case 1
    show ?thesis unfolding 1 by (intro accepts_Alt(1) accepts_lit)
  next
    case 2
    show ?thesis unfolding 2 by (intro accepts_Alt(2) accepts_Alt(1) accepts_lit)
  next
    case 3
    show ?thesis unfolding 3 by (intro accepts_Alt(2) accepts_Alt(1) accepts_lit)
  next
    case 4
    show ?thesis unfolding 4 by (intro accepts_Alt(2) accepts_lit)
  qed
qed

lemma pattern_matches_iff:
  "re_search name_pat b \<noteq> None \<longleftrightarrow> has_labelled (\<lambda>l. l = ''Name'') line_text b"
  "re_search father_pat b \<noteq> None \<longleftrightarrow> has_labelled (relation_label ''Father'') line_text b"
  "re_search husband_pat b \<noteq> None \<longleftrightarrow> has_labelled (relation_label ''Husband'') line_text b"
  "re_search mother_pat b \<noteq> None \<longleftrightarrow> has_labelled (relation_label ''Mother'') line_text b"
  "re_search house_pat b \<noteq> None \<longleftrightarrow> has_labelled house_label word_text b"
  "re_search age_pat b \<noteq> None \<longleftrightarrow> has_labelled (\<lambda>l. l = ''Age'') digits_text b"
  "re_search gender_pat b \<noteq> None \<longleftrightarrow> has_labelled (\<lambda>l. l = ''Gender'') gender_token b"
proof -
  show "re_search name_pat b \<noteq> None \<longleftrightarrow> has_labelled (\<lambda>l. l = ''Name'') line_text b"
  proof
    assume "re_search name_pat b \<noteq> None"
    then obtain m where "re_search name_pat b = Some m" by auto
    from labelled_has[OF name_labelled[OF this]] show "has_labelled (\<lambda>l. l = ''Name'') line_text b" .
  next
    assume "has_labelled (\<lambda>l. l = ''Name'') line_text b"
    then show "re_search name_pat b \<noteq> None"
      unfolding name_pat_def
      by (rule has_labelledI) (erule accepts_single_label, erule accepts_values)
  qed
  show "re_search father_pat b \<noteq> None \<longleftrightarrow> has_labelled (relation_label ''Father'') line_text b"
  proof
    assume "re_search father_pat b \<noteq> None"
    then obtain m where "re_search father_pat b = Some m" by auto
    from labelled_has[OF father_labelled[OF this]]
    show "has_labelled (relation_label ''Father'') line_text b" .
  next
    assume "has_labelled (relation_label ''Father'') line_text b"
    then show "re_search father_pat b \<noteq> None"
      unfolding father_pat_def
      by (rule has_labelledI) (erule accepts_relation_label, erule accepts_values)
  qed
  show "re_search husband_pat b \<noteq> None \<longleftrightarrow> has_labelled (relation_label ''Husband'') line_text b"
  proof
    assume "re_search husband_pat b \<noteq> None"
    then obtain m where "re_search husband_pat b = Some m" by auto
    from labelled_has[OF husband_labelled[OF this]]
    show "has_labelled (relation_label ''Husband'') line_text b" .
  next
    assume "has_labelled (relation_label ''Husband'') line_text b"
    then show "re_search husband_pat b \<noteq> None"
      unfolding husband_pat_def
      by (rule has_labelledI) (erule accepts_relation_label, erule accepts_values)
  qed
  show "re_search mother_pat b \<noteq> None \<longleftrightarrow> has_labelled (relation_label ''Mother'') line_text b"
  proof
    assume "re_search mother_pat b \<noteq> None"
    then obtain m where "re_search mother_pat b = Some m" by auto
    from labelled_has[OF mother_labelled[OF this]]
    show "has_labelled (relation_label ''Mother'') line_text b" .
  next
    assume "has_labelled (relation_label ''Mother'') line_text b"
    then show "re_search mother_pat b \<noteq> None"
      unfolding mother_pat_def
      by (rule has_labelledI) (erule accepts_relation_label, erule accepts_values)
  qed
  show "re_search house_pat b \<noteq> None \<longleftrightarrow> has_labelled house_label word_text b"
  proof
    assume "re_search house_pat b \<noteq> None"
    then obtain m where "re_search house_pat b = Some m" by auto
    from labelled_has[OF house_labelled[OF this]] show "has_labelled house_label word_text b" .
  next
    assume "has_labelled house_label word_text b"
    then show "re_search house_pat b \<noteq> None"
      unfolding house_pat_def
      by (rule has_labelledI) (erule accepts_house_label, erule accepts_values)
  qed
  show "re_search age_pat b \<noteq> None \<longleftrightarrow> has_labelled (\<lambda>l. l = ''Age'') digits_text b"
  proof
    assume "re_search age_pat b \<noteq> None"
    then obtain m where "re_search age_pat b = Some m" by auto
    from labelled_has[OF age_labelled[OF this]] show "has_labelled (\<lambda>l. l = ''Age'') digits_text b" .
  next
    assume "has_labelled (\<lambda>l. l = ''Age'') digits_text b"
    then show "re_search age_pat b \<noteq> None"
      unfolding age_pat_def
      by (rule has_labelledI) (erule accepts_single_label, erule accepts_values)
  qed
  show "re_search gender_pat b \<noteq> None \<longleftrightarrow> has_labelled (\<lambda>l. l = ''Gender'') gender_token b"
  proof
    assume "re_search gender_pat b \<noteq> None"
    then obtain m where "re_search gender_pat b = Some m" by auto
    from labelled_has[OF gender_labelled[OF this]]
    show "has_labelled (\<lambda>l. l = ''Gender'') gender_token b" .
  next
    assume "has_labelled (\<lambda>l. l = ''Gender'') gender_token b"
    then show "re_search gender_pat b \<noteq> None"
      unfolding gender_pat_def
      by (rule has_labelledI) (erule accepts_single_label, erule accepts_gender_token)
  qed
qed

subsection \<open>C1: the end-to-end scenario\<close>

text \<open>
  Claim C1, as stated: on the two-page document \<open>scenario\<close> the raw output has two
  records, the cleaned output has one (the record of page 1), and the records have
  house number \<open>45A\<close> and name \<open>RAMESH KUMAR\<close>.  The page text has no line feed, and
  the name pattern reads to the end of the line: the name of both records is the rest
  of the line after the label, not \<open>RAMESH KUMAR\<close>.
\<close>

theorem C1_name_counterexample:
  "json_to_csv scenario = Inr \<lparr>raw_rows = [row1, row2], clean_rows = [row1], total = 1\<rparr>
   \<and> name row1 \<noteq> ''RAMESH KUMAR'' \<and> name row2 \<noteq> ''RAMESH KUMAR''"
  by (simp add: scenario_run row1_def row2_def rest_of_line_def)

text \<open>
  Claim C1, amended: on \<open>scenario\<close> the raw output has exactly the two records of the
  two pages in page order, the cleaned output has exactly the first of them (from page
  1), both have house number \<open>45A\<close>, and both have the name
  \<open>RAMESH KUMAR Age:34 Gender:Male House Number:45A\<close>.
\<close>

theorem C1_end_to_end:
  "json_to_csv scenario = Inr \<lparr>raw_rows = [row1, row2], clean_rows = [row1], total = 1\<rparr>
   \<and> map voter_id [row1, row2] = [''AB1234567'', ''CD7654321'']
   \<and> map page [row1, row2] = [1, 2]
   \<and> map house_number [row1, row2] = [''45A'', ''45A'']
   \<and> map name [row1, row2] = [''RAMESH KUMAR Age:34 Gender:Male House Number:45A'',
                                ''RAMESH KUMAR Age:34 Gender:Male House Number:45A'']"
  by (simp add: scenario_run row1_def row2_def rest_of_line_def)

subsection \<open>C2: cleaning and deduplication\<close>

lemma cleaning_acc: "cleaning rows cleaned seen = cleaned @ cleaning rows [] seen"
proof (induction rows arbitrary: cleaned seen)
  case Nil
  show ?case by simp
next
  case (Cons r rs)
  show ?case
    using Cons[of "cleaned @ [r]"] Cons[of "[r]"] Cons[of cleaned]
    by (simp add: Let_def)
qed

lemma cleaning_Cons:
  "cleaning (r # rs) [] seen =
     (if complete_row r \<and> row_key r \<notin> seen then r # cleaning rs [] (insert (row_key r) seen)
      else cleaning rs [] seen)"
  using cleaning_acc[of rs "[r]"]
  by (simp add: Let_def complete_row_def row_key_def)

lemma first_of_key_0: "first_of_key rows 0"
  by (simp add: first_of_key_def)

lemma first_of_key_Suc:
  "first_of_key (r # rs) (Suc j) \<longleftrightarrow>
     (complete_row r \<longrightarrow> row_key r \<noteq> row_key (rs ! j)) \<and> first_of_key rs j"
  by (auto simp: first_of_key_def less_Suc_eq_0_disj)

lemma cleaning_nths:
  "cleaning rows [] seen =
     nths rows {i. i < length rows \<and> complete_row (rows ! i) \<and> row_key (rows ! i) \<notin> seen
                   \<and> first_of_key rows i}"
proof (induction rows arbitrary: seen)
  case Nil
  show ?case by simp
next
  case (Cons r rs)
  let ?A = "{i. i < length (r # rs) \<and> complete_row ((r # rs) ! i) \<and> row_key ((r # rs) ! i) \<notin> seen
                \<and> first_of_key (r # rs) i}"
  have zero: "0 \<in> ?A \<longleftrightarrow> complete_row r \<and> row_key r \<notin> seen"
    by (simp add: first_of_key_0)
  have rest: "{j. Suc j \<in> ?A} =
     {j. j < length rs \<and> complete_row (rs ! j) \<and> row_key (rs ! j) \<notin> seen
         \<and> (complete_row r \<longrightarrow> row_key r \<noteq> row_key (rs ! j)) \<and> first_of_key rs j}"
    by (auto simp: first_of_key_Suc)
  show ?case
  proof (cases "complete_row r \<and> row_key r \<notin> seen")
    case True
    then have "{j. Suc j \<in> ?A} =
       {j. j < length rs \<and> complete_row (rs ! j) \<and> row_key (rs ! j) \<notin> insert (row_key r) seen
           \<and> first_of_key rs j}"
      unfolding rest by auto
    with True zero show ?thesis
      by (simp only: cleaning_Cons nths_Cons Cons if_True) simp
  next
    case False
    then have "{j. Suc j \<in> ?A} =
       {j. j < length rs \<and> complete_row (rs ! j) \<and> row_key (rs ! j) \<notin> seen \<and> first_of_key rs j}"
      unfolding rest by auto
    with False zero show ?thesis
      by (simp only: cleaning_Cons nths_Cons Cons if_False) simp
  qed
qed

lemma cleaning_complete: "v \<in> set (cleaning rows [] seen) \<Longrightarrow> complete_row v"
  by (auto simp: cleaning_nths set_nths)

lemma strip_Nil [simp]: "strip [] = []"
  by (simp add: strip_def rstrip_def lstrip_def)

text \<open>
  Claim C2: for every sequence of parsed records, the cleaned output is the
  subsequence, in the order of the input, of the records whose trimmed name and
  trimmed house number are both non-empty and that are the first with their key
  (upper-cased trimmed name, trimmed house number), whatever the voter id and the page
  of the later records with that key; so no record of the cleaned output has an empty
  name or an empty house number.
\<close>

theorem C2_cleaning_postcondition:
  "cleaning rows [] {} = cleaned_spec rows
   \<and> (\<forall>v \<in> set (cleaning rows [] {}). name v \<noteq> [] \<and> house_number v \<noteq> [])"
proof
  show "cleaning rows [] {} = cleaned_spec rows"
    by (simp add: cleaning_nths cleaned_spec_def)
  show "\<forall>v \<in> set (cleaning rows [] {}). name v \<noteq> [] \<and> house_number v \<noteq> []"
  proof
    fix v assume "v \<in> set (cleaning rows [] {})"
    then have "complete_row v" by (rule cleaning_complete)
    then show "name v \<noteq> [] \<and> house_number v \<noteq> []"
      by (auto simp: complete_row_def)
  qed
qed

text \<open>
  Witness for C2: of a record without house number and the two records of the
  scenario, which differ in voter id and page and share their key, the cleaned output
  and the specified output are the first record of the scenario alone.
\<close>

theorem C2_cleaning_postcondition_witness:
  "cleaning [row0, row1, row2] [] {} = [row1]
   \<and> cleaned_spec [row0, row1, row2] = [row1]
   \<and> name row1 \<noteq> [] \<and> house_number row1 \<noteq> []"
  using C2_cleaning_postcondition [of "[row0, row1, row2]"] cleaning_run3
  by (simp add: row1_def rest_of_line_def)

subsection \<open>C3: candidate selection\<close>

text \<open>
  Claim C3: \<open>parse_page\<close> returns one record for each anchor, in the order of the
  anchors.  The record of an anchor carries, with the voter id of the anchor, the
  fields of one of the three records that \<open>parse_block\<close> extracts from the window after
  the anchor, the window before it and the two joined by a line feed: the one at the
  earliest position, in this order, whose completeness is the greatest of the three.
  The completeness of a record is the number of non-empty values among its name, age,
  gender and house number, from 0 to 4.
\<close>

theorem C3_candidate_selection:
  "\<exists>voters. parse_page body pg = Inr voters
     \<and> (let t = re_sub blanks_pat '' '' body; ids = id_positions_of t in
          length voters = length ids
        \<and> (\<forall>i \<in> set [0 ..< length ids].
             \<exists>ca cb cc k.
               parse_block (after_window t ids i) = Inr ca
             \<and> parse_block (before_window t ids i) = Inr cb
             \<and> parse_block (before_window t ids i @ [NL] @ after_window t ids i) = Inr cc
             \<and> earliest_max completeness [ca, cb, cc] k
             \<and> fields.truncate (voters ! i) = [ca, cb, cc] ! k
             \<and> voter_id (voters ! i) = snd (ids ! i)
             \<and> (\<forall>c \<in> set [ca, cb, cc].
                   completeness c = score_spec c \<and> 0 \<le> completeness c
                   \<and> completeness c \<le> 4)))"
proof -
  let ?t = "re_sub blanks_pat '' '' body"
  let ?ids = "id_positions_of ?t"
  obtain voters where p: "parse_page body pg = Inr voters" using parse_page_total by blast
  from parse_page_Inr[OF p] obtain part sect where
    c: "collect (map (parse_anchor ?t ?ids part sect pg) (enumerate 0 ?ids)) = Inr voters"
    by blast
  from collect_map_Inr(1)[OF c] have l: "length voters = length ?ids" by simp
  have s: "\<forall>i \<in> set [0 ..< length ?ids].
             \<exists>ca cb cc k.
               parse_block (after_window ?t ?ids i) = Inr ca
             \<and> parse_block (before_window ?t ?ids i) = Inr cb
             \<and> parse_block (before_window ?t ?ids i @ [NL] @ after_window ?t ?ids i) = Inr cc
             \<and> earliest_max completeness [ca, cb, cc] k
             \<and> fields.truncate (voters ! i) = [ca, cb, cc] ! k
             \<and> voter_id (voters ! i) = snd (?ids ! i)
             \<and> (\<forall>c \<in> set [ca, cb, cc].
                   completeness c = score_spec c \<and> 0 \<le> completeness c
                   \<and> completeness c \<le> 4)"
  proof
    fix i assume "i \<in> set [0 ..< length ?ids]"
    then have i: "i < length ?ids" by simp
    then have "i < length (enumerate 0 ?ids)" by simp
    from collect_map_Inr(2)[OF c this] enumerate_nth[OF i]
    have "parse_anchor ?t ?ids part sect pg (i, ?ids ! i) = Inr (voters ! i)" by simp
    from selection_of_anchor[OF i this]
    show "\<exists>ca cb cc k.
               parse_block (after_window ?t ?ids i) = Inr ca
             \<and> parse_block (before_window ?t ?ids i) = Inr cb
             \<and> parse_block (before_window ?t ?ids i @ [NL] @ after_window ?t ?ids i) = Inr cc
             \<and> earliest_max completeness [ca, cb, cc] k
             \<and> fields.truncate (voters ! i) = [ca, cb, cc] ! k
             \<and> voter_id (voters ! i) = snd (?ids ! i)
             \<and> (\<forall>c \<in> set [ca, cb, cc].
                   completeness c = score_spec c \<and> 0 \<le> completeness c
                   \<and> completeness c \<le> 4)" .
  qed
  from p l s show ?thesis unfolding Let_def by blast
qed

text \<open>
  Witness for C3: the page \<open>tie_text\<close> has one anchor; the window after it gives the
  name \<open>X\<close>, the window before it and the joined window give the name \<open>Y\<close>; the three
  records have completeness 1, and the record of the page has the name \<open>X\<close> of the
  first of them.
\<close>

theorem C3_candidate_selection_witness:
  "parse_page tie_text 1 = Inr [tie_row]
   \<and> id_positions_of (re_sub blanks_pat '' '' tie_text) = [(7, ''AB1234567'')]
   \<and> parse_block (after_window tie_text [(7, ''AB1234567'')] 0) = Inr (no_fields\<lparr>name := ''X''\<rparr>)
   \<and> parse_block (before_window tie_text [(7, ''AB1234567'')] 0) = Inr (no_fields\<lparr>name := ''Y''\<rparr>)
   \<and> parse_block (before_window tie_text [(7, ''AB1234567'')] 0 @ [NL]
                   @ after_window tie_text [(7, ''AB1234567'')] 0) = Inr (no_fields\<lparr>name := ''Y''\<rparr>)
   \<and> completeness (no_fields\<lparr>name := ''X''\<rparr>) = 1
   \<and> completeness (no_fields\<lparr>name := ''Y''\<rparr>) = 1
   \<and> earliest_max completeness
       [no_fields\<lparr>name := ''X''\<rparr>, no_fields\<lparr>name := ''Y''\<rparr>, no_fields\<lparr>name := ''Y''\<rparr>] 0
   \<and> fields.truncate tie_row = no_fields\<lparr>name := ''X''\<rparr>
   \<and> voter_id tie_row = ''AB1234567''"
  using C3_candidate_selection [of tie_text 1] run_tie tie_scores
  by (simp add: tie_row_def)

subsection \<open>C4: labels and separators\<close>

text \<open>
  Claim C4, as stated: the labels are matched without regard to case, so that the
  windows \<open>name: X\<close> and \<open>NAME: X\<close> give the same field as \<open>Name: X\<close>.  The patterns of
  \<open>parse_block\<close> are matched as they are spelled: \<open>Name: X\<close> gives the name \<open>X\<close>, the
  other two windows give no name.
\<close>

theorem C4_label_case:
  "parse_block ''Name: X'' = Inr (no_fields\<lparr>name := ''X''\<rparr>)
   \<and> parse_block ''name: X'' = Inr no_fields
   \<and> parse_block ''NAME: X'' = Inr no_fields
   \<and> no_fields\<lparr>name := ''X''\<rparr> \<noteq> no_fields"
  by (simp add: run_name no_fields_def)

text \<open>
  Claim C4, amended: for every window, each labelled-field pattern of the field
  extractor matches its label as it is spelled (\<open>Name\<close>; \<open>Father\<close>, \<open>Husband\<close> or
  \<open>Mother\<close>, with or without \<open>'s\<close>, a space and \<open>Name\<close>; \<open>House\<close>, optional white space
  and \<open>Number\<close>; \<open>Age\<close>; \<open>Gender\<close>), then optional white space, one separator among
  \<open>:\<close>, \<open>+\<close> and \<open>!\<close>, optional white space and the value, which is the first group of
  the match.  A pattern has a match in a window exactly when the window contains such a
  label, separator and value.  Each of the three separators is accepted by each of the
  seven patterns; labels in another case and other separators give no field: the
  windows \<open>name: X\<close> and \<open>NAME: X\<close> give no name.
\<close>

theorem C4_labels_as_spelled:
  "(re_search name_pat b = Some m \<longrightarrow> labelled (\<lambda>l. l = ''Name'') line_text b m)
   \<and> (re_search father_pat b = Some m \<longrightarrow> labelled (relation_label ''Father'') line_text b m)
   \<and> (re_search husband_pat b = Some m \<longrightarrow> labelled (relation_label ''Husband'') line_text b m)
   \<and> (re_search mother_pat b = Some m \<longrightarrow> labelled (relation_label ''Mother'') line_text b m)
   \<and> (re_search house_pat b = Some m \<longrightarrow> labelled house_label word_text b m)
   \<and> (re_search age_pat b = Some m \<longrightarrow> labelled (\<lambda>l. l = ''Age'') digits_text b m)
   \<and> (re_search gender_pat b = Some m \<longrightarrow> labelled (\<lambda>l. l = ''Gender'') gender_token b m)
   \<and> (re_search name_pat b \<noteq> None \<longleftrightarrow> has_labelled (\<lambda>l. l = ''Name'') line_text b)
   \<and> (re_search father_pat b \<noteq> None \<longleftrightarrow> has_labelled (relation_label ''Father'') line_text b)
   \<and> (re_search husband_pat b \<noteq> None \<longleftrightarrow> has_labelled (relation_label ''Husband'') line_text b)
   \<and> (re_search mother_pat b \<noteq> None \<longleftrightarrow> has_labelled (relation_label ''Mother'') line_text b)
   \<and> (re_search house_pat b \<noteq> None \<longleftrightarrow> has_labelled house_label word_text b)
   \<and> (re_search age_pat b \<noteq> None \<longleftrightarrow> has_labelled (\<lambda>l. l = ''Age'') digits_text b)
   \<and> (re_search gender_pat b \<noteq> None \<longleftrightarrow> has_labelled (\<lambda>l. l = ''Gender'') gender_token b)
   \<and> (\<forall>c \<in> set '':+!''.
         parse_block (''Name'' @ [c] @ '' X'') = Inr (no_fields\<lparr>name := ''X''\<rparr>)
       \<and> parse_block (''Father Name'' @ [c] @ '' X'') =
           Inr (no_fields\<lparr>name := ''X'', relation_type := ''S/O'', relation_name := ''X''\<rparr>)
       \<and> parse_block (''Husband'' @ APOS_S @ '' Name'' @ [c] @ '' X'') =
           Inr (no_fields\<lparr>name := ''X'', relation_type := ''W/O'', relation_name := ''X''\<rparr>)
       \<and> parse_block (''Mother Name'' @ [c] @ '' X'') =
           Inr (no_fields\<lparr>name := ''X'', relation_type := ''C/O'', relation_name := ''X''\<rparr>)
       \<and> parse_block (''House Number'' @ [c] @ '' 45A'') =
           Inr (no_fields\<lparr>house_number := ''45A''\<rparr>)
       \<and> parse_block (''Age'' @ [c] @ '' 34'') = Inr (no_fields\<lparr>age := ''34''\<rparr>)
       \<and> parse_block (''Gender'' @ [c] @ '' Male'') = Inr (no_fields\<lparr>gender := ''Male''\<rparr>))
   \<and> parse_block ''name: X'' = Inr no_fields
   \<and> parse_block ''NAME: X'' = Inr no_fields
   \<and> parse_block ''father Name: X'' = Inr (no_fields\<lparr>name := ''X''\<rparr>)
   \<and> parse_block ''HUSBAND Name: X'' = Inr (no_fields\<lparr>name := ''X''\<rparr>)
   \<and> parse_block ''mother Name: X'' = Inr (no_fields\<lparr>name := ''X''\<rparr>)
   \<and> parse_block ''house number: 45A'' = Inr no_fields
   \<and> parse_block ''AGE: 34'' = Inr no_fields
   \<and> parse_block ''gender: Male'' = Inr no_fields
   \<and> parse_block ''Name# X'' = Inr no_fields
   \<and> parse_block ''Age; 34'' = Inr no_fields"
  by (intro conjI;
      (rule pattern_matches_iff run_every_separator run_other_case
       | (rule impI,
          erule name_labelled father_labelled husband_labelled mother_labelled
            house_labelled age_labelled gender_labelled)))

text \<open>
  Witness for C4: in the window \<open>labels_text\<close> the patterns of the name, the father,
  the house number, the age and the gender have a match, and each match is a label as
  it is spelled with its separator and its value.
\<close>

theorem C4_labels_as_spelled_witness:
  "(\<exists>m. re_search name_pat labels_text = Some m
        \<and> labelled (\<lambda>l. l = ''Name'') line_text labels_text m)
   \<and> (\<exists>m. re_search father_pat labels_text = Some m
        \<and> labelled (relation_label ''Father'') line_text labels_text m)
   \<and> (\<exists>m. re_search house_pat labels_text = Some m
        \<and> labelled house_label word_text labels_text m)
   \<and> (\<exists>m. re_search age_pat labels_text = Some m
        \<and> labelled (\<lambda>l. l = ''Age'') digits_text labels_text m)
   \<and> (\<exists>m. re_search gender_pat labels_text = Some m
        \<and> labelled (\<lambda>l. l = ''Gender'') gender_token labels_text m)
   \<and> has_labelled (\<lambda>l. l = ''Name'') line_text labels_text
   \<and> has_labelled house_label word_text labels_text"
proof -
  have e: "\<And>P r. r \<noteq> None \<Longrightarrow> (\<And>m. r = Some m \<longrightarrow> P m) \<Longrightarrow> \<exists>m. r = Some m \<and> P m"
    by auto
  have 1: "\<exists>m. re_search name_pat labels_text = Some m
        \<and> labelled (\<lambda>l. l = ''Name'') line_text labels_text m"
    by (rule e[OF run_labels(1)]) (rule C4_labels_as_spelled [of labels_text, THEN conjunct1])
  have 2: "\<exists>m. re_search father_pat labels_text = Some m
        \<and> labelled (relation_label ''Father'') line_text labels_text m"
    by (rule e[OF run_labels(2)]) (rule C4_labels_as_spelled [of labels_text, THEN conjunct2, THEN conjunct1])
  have 3: "\<exists>m. re_search house_pat labels_text = Some m
        \<and> labelled house_label word_text labels_text m"
    by (rule e[OF run_labels(3)]) (rule C4_labels_as_spelled [of labels_text, THEN conjunct2, THEN conjunct2, THEN conjunct2, THEN conjunct2, THEN conjunct1])
  have 4: "\<exists>m. re_search age_pat labels_text = Some m
        \<and> labelled (\<lambda>l. l = ''Age'') digits_text labels_text m"
    by (rule e[OF run_labels(4)]) (rule C4_labels_as_spelled [of labels_text, THEN conjunct2, THEN conjunct2, THEN conjunct2, THEN conjunct2, THEN conjunct2, THEN conjunct1])
  have 5: "\<exists>m. re_search gender_pat labels_text = Some m
        \<and> labelled (\<lambda>l. l = ''Gender'') gender_token labels_text m"
    by (rule e[OF run_labels(5)]) (rule C4_labels_as_spelled [of labels_text, THEN conjunct2, THEN conjunct2, THEN conjunct2, THEN conjunct2, THEN conjunct2, THEN conjunct2, THEN conjunct1])
  have 6: "has_labelled (\<lambda>l. l = ''Name'') line_text labels_text"
    using C4_labels_as_spelled [of labels_text, THEN conjunct2, THEN conjunct2, THEN conjunct2, THEN conjunct2, THEN conjunct2, THEN conjunct2, THEN conjunct2, THEN conjunct1] run_labels(1) by (rule iffD1)
  have 7: "has_labelled house_label word_text labels_text"
    using C4_labels_as_spelled [of labels_text, THEN conjunct2, THEN conjunct2, THEN conjunct2, THEN conjunct2, THEN conjunct2, THEN conjunct2, THEN conjunct2, THEN conjunct2, THEN conjunct2, THEN conjunct2, THEN conjunct2, THEN conjunct1] run_labels(3) by (rule iffD1)
  from 1 2 3 4 5 6 7 show ?thesis by (intro conjI)
qed

subsection \<open>C5: the shape of a house number\<close>

text \<open>
  Claim C5, as stated: an input that, after trimming, comma removal, hyphen-to-slash
  replacement and collapsing of repeated slashes, is not one or more digits and slashes
  with at most one upper-case letter after them is rejected to the empty string.  The
  validation accepts a letter of either case: the input \<open>45a\<close> is prepared to \<open>45a\<close>,
  which has not that shape, and it is normalized to \<open>45A\<close>.
\<close>

theorem C5_lowercase_letter_accepted:
  "normalize_house_no ''45a'' = Inr ''45A''
   \<and> house_prepared ''45a'' = ''45a'' \<and> \<not> house_shape ''45a''"
  by (simp add: run_house_45a)

text \<open>
  Claim C5, amended: for every input \<open>raw\<close>, \<open>normalize_house_no raw\<close> is the empty
  string or one or more digits and slashes with at most one upper-case letter after
  them.  An input whose prepared text (trimmed, commas removed, hyphens replaced by
  slashes, repeated slashes collapsed) has no line feed and is not one or more digits
  and slashes with at most one letter of either case after them is rejected to the
  empty string; an input whose prepared text is of that kind is normalized to its
  prepared text with the letter in upper case.
\<close>

theorem C5_house_number_shape:
  "(\<exists>out. normalize_house_no raw = Inr out \<and> (out = [] \<or> house_shape out))
   \<and> (NL \<notin> set (house_prepared raw) \<and> \<not> house_valid (house_prepared raw)
        \<longrightarrow> normalize_house_no raw = Inr [])
   \<and> (house_valid (house_prepared raw)
        \<longrightarrow> normalize_house_no raw = Inr (upper (house_prepared raw)))"
proof (intro conjI impI)
  from normalize_house_no_total[of raw] obtain out where o: "normalize_house_no raw = Inr out"
    by blast
  from normalize_house_no_shape[OF o] o
  show "\<exists>out. normalize_house_no raw = Inr out \<and> (out = [] \<or> house_shape out)" by blast
next
  assume "NL \<notin> set (house_prepared raw) \<and> \<not> house_valid (house_prepared raw)"
  then show "normalize_house_no raw = Inr []" by (simp add: normalize_house_no_rejects)
next
  assume "house_valid (house_prepared raw)"
  then show "normalize_house_no raw = Inr (upper (house_prepared raw))"
    by (rule normalize_house_no_accepts)
qed

text \<open>
  Witness for C5: \<open>12-5,a\<close> is prepared to \<open>12/5a\<close>, which the validation accepts, and
  normalized to \<open>12/5A\<close>; \<open>No.7\<close> is prepared to itself, which has no line feed and
  which the validation does not accept, and is rejected.
\<close>

theorem C5_house_number_shape_witness:
  "normalize_house_no ''12-5,a'' = Inr ''12/5A''
   \<and> house_prepared ''12-5,a'' = ''12/5a'' \<and> house_valid ''12/5a'' \<and> house_shape ''12/5A''
   \<and> normalize_house_no ''No.7'' = Inr []
   \<and> house_prepared ''No.7'' = ''No.7'' \<and> \<not> house_valid ''No.7''"
  using C5_house_number_shape [of "''12-5,a''"] C5_house_number_shape [of "''No.7''"]
    run_house_more
  by simp

subsection \<open>C6: gender\<close>

text \<open>
  Claim C6, as stated: the English gender tokens are case-normalized, so that a
  lower-case \<open>male\<close> after the label gives \<open>Male\<close>.  The gender pattern is matched as it
  is spelled: on the window \<open>Gender: male\<close> nothing is captured and the gender is empty.
\<close>

theorem C6_lowercase_not_captured:
  "parse_block ''Gender: male'' = Inr no_fields \<and> gender no_fields \<noteq> ''Male''"
  by (simp add: run_gender no_fields_def)

text \<open>
  Claim C6, amended: for every window the gender of the record is \<open>Male\<close>, \<open>Female\<close> or
  empty.  When the gender pattern matches, the value captured after the label \<open>Gender\<close>
  and its separator is one of the two English tokens \<open>Male\<close> and \<open>Female\<close>, spelled so,
  or one of the two Tamil tokens; the Tamil male token and \<open>Male\<close> give \<open>Male\<close>, the
  Tamil female token and \<open>Female\<close> give \<open>Female\<close>.  When it does not match, the gender
  is empty, as it is on the window \<open>Gender: male\<close>.
\<close>

theorem C6_gender_values:
  "(\<exists>f. parse_block b = Inr f
      \<and> gender f \<in> set [''Male'', ''Female'', []]
      \<and> (case re_search gender_pat b of
            None \<Rightarrow> gender f = []
          | Some m \<Rightarrow>
              labelled (\<lambda>l. l = ''Gender'')
                (\<lambda>raw. gender_token raw
                   \<and> gender f = (if raw = ''Male'' \<or> raw = TAMIL_MALE then ''Male''
                                 else ''Female'')) b m))
   \<and> parse_block ''Gender: male'' = Inr no_fields"
proof -
  obtain f where p: "parse_block b = Inr f" using parse_block_total by blast
  note gf = parse_block_gender[OF p]
  have c: "case re_search gender_pat b of None \<Rightarrow> gender f = [] | Some m \<Rightarrow>
             labelled (\<lambda>l. l = ''Gender'')
               (\<lambda>raw. gender_token raw
                  \<and> gender f = (if raw = ''Male'' \<or> raw = TAMIL_MALE then ''Male''
                                else ''Female'')) b m"
  proof (cases "re_search gender_pat b")
    case None
    with gf show ?thesis by (simp add: fields_None)
  next
    case (Some m)
    from gender_field_Some[OF Some] gf Some obtain raw where
      r: "group m 1 = Inr raw"
         "gender f = (if raw = ''Male'' \<or> raw = TAMIL_MALE then ''Male'' else ''Female'')"
      by auto
    have "labelled (\<lambda>l. l = ''Gender'')
            (\<lambda>raw. gender_token raw
               \<and> gender f = (if raw = ''Male'' \<or> raw = TAMIL_MALE then ''Male''
                             else ''Female'')) b m"
      by (rule labelled_mono[OF gender_labelled[OF Some]]) (use r in simp)
    with Some show ?thesis by simp
  qed
  have v: "gender f \<in> set [''Male'', ''Female'', []]"
  proof (cases "re_search gender_pat b")
    case None
    with gf show ?thesis by (simp add: fields_None)
  next
    case (Some m)
    from gender_field_Some[OF Some] gf Some show ?thesis by auto
  qed
  from p v c run_gender(5) show ?thesis by blast
qed

text \<open>
  Witness for C6: the windows with the Tamil male token and with the Tamil female token
  after the label give \<open>Male\<close> and \<open>Female\<close>.
\<close>

theorem C6_gender_values_witness:
  "(\<exists>f. parse_block (''Gender: '' @ TAMIL_MALE) = Inr f \<and> gender f = ''Male'')
   \<and> (\<exists>f. parse_block (''Gender: '' @ TAMIL_FEMALE) = Inr f \<and> gender f = ''Female'')
   \<and> (\<exists>f. parse_block ''Gender: Female'' = Inr f \<and> gender f = ''Female'')"
  using C6_gender_values [of "''Gender: '' @ TAMIL_MALE"] run_gender
  by (simp add: no_fields_def)

subsection \<open>C7: relation type and relation name\<close>

text \<open>
  Claim C7, as stated: the record that \<open>parse_block\<close> returns has relation type and
  relation name both non-empty or both empty, never a type without a name.  On the
  window \<open>Father Name:-\<close> the father pattern captures \<open>-\<close>, which \<open>clean\<close> turns into the
  empty string: the record has the relation type \<open>S/O\<close> and an empty relation name.
\<close>

theorem C7_type_without_name:
  "parse_block ''Father Name:-'' = Inr (no_fields\<lparr>relation_type := ''S/O''\<rparr>)
   \<and> relation_type (no_fields\<lparr>relation_type := ''S/O''\<rparr>) \<noteq> []
   \<and> relation_name (no_fields\<lparr>relation_type := ''S/O''\<rparr>) = []"
  by (simp add: run_father_dash no_fields_def)

text \<open>
  Claim C7, amended: for every window \<open>parse_block\<close> returns a record whose relation
  type and relation name come from the first of the father, husband and mother
  patterns that matches, in this order: the type is its tag (\<open>S/O\<close>, \<open>W/O\<close>, \<open>C/O\<close>) and
  the name is \<open>clean\<close> of the text captured after its label; when none matches, both
  are empty.  So the two are both non-empty or both empty, but for a type with an
  empty name when the captured text cleans to the empty string; never a relation name
  without a type.
\<close>

theorem C7_relation_name_has_type:
  "\<exists>f. parse_block b = Inr f
     \<and> (case re_search father_pat b of
           Some m \<Rightarrow>
             relation_type f = ''S/O''
             \<and> labelled (relation_label ''Father'')
                 (\<lambda>v. line_text v \<and> relation_name f = clean v) b m
         | None \<Rightarrow>
            (case re_search husband_pat b of
               Some m \<Rightarrow>
                 relation_type f = ''W/O''
                 \<and> labelled (relation_label ''Husband'')
                     (\<lambda>v. line_text v \<and> relation_name f = clean v) b m
             | None \<Rightarrow>
                (case re_search mother_pat b of
                   Some m \<Rightarrow>
                     relation_type f = ''C/O''
                     \<and> labelled (relation_label ''Mother'')
                         (\<lambda>v. line_text v \<and> relation_name f = clean v) b m
                 | None \<Rightarrow> relation_type f = [] \<and> relation_name f = [])))
     \<and> (relation_type f = [] \<longrightarrow> relation_name f = [])
     \<and> relation_type f \<in> set [[], ''S/O'', ''W/O'', ''C/O'']"
proof -
  obtain f where p: "parse_block b = Inr f" using parse_block_total by blast
  note r = parse_block_relation[OF p]
  have c: "case re_search father_pat b of
           Some m \<Rightarrow>
             relation_type f = ''S/O''
             \<and> labelled (relation_label ''Father'')
                 (\<lambda>v. line_text v \<and> relation_name f = clean v) b m
         | None \<Rightarrow>
            (case re_search husband_pat b of
               Some m \<Rightarrow>
                 relation_type f = ''W/O''
                 \<and> labelled (relation_label ''Husband'')
                     (\<lambda>v. line_text v \<and> relation_name f = clean v) b m
             | None \<Rightarrow>
                (case re_search mother_pat b of
                   Some m \<Rightarrow>
                     relation_type f = ''C/O''
                     \<and> labelled (relation_label ''Mother'')
                         (\<lambda>v. line_text v \<and> relation_name f = clean v) b m
                 | None \<Rightarrow> relation_type f = [] \<and> relation_name f = []))"
  proof (cases "re_search father_pat b")
    case (Some m)
    from r Some have "and_then (group m 1) (\<lambda>w. Inr (''S/O'', clean w))
                        = Inr (relation_type f, relation_name f)"
      by (simp add: relation_field_def)
    from relation_labelled[OF father_labelled[OF Some] this] Some show ?thesis by simp
  next
    case fN: None
    show ?thesis
    proof (cases "re_search husband_pat b")
      case (Some m)
      from r fN Some have "and_then (group m 1) (\<lambda>w. Inr (''W/O'', clean w))
                          = Inr (relation_type f, relation_name f)"
        by (simp add: relation_field_def)
      from relation_labelled[OF husband_labelled[OF Some] this] fN Some show ?thesis by simp
    next
      case hN: None
      show ?thesis
      proof (cases "re_search mother_pat b")
        case (Some m)
        from r fN hN Some have "and_then (group m 1) (\<lambda>w. Inr (''C/O'', clean w))
                            = Inr (relation_type f, relation_name f)"
          by (simp add: relation_field_def)
        from relation_labelled[OF mother_labelled[OF Some] this] fN hN Some
        show ?thesis by simp
      next
        case None
        with r fN hN show ?thesis by (simp add: relation_field_def)
      qed
    qed
  qed
  from relation_field_pairs[OF r] have
    q: "(relation_type f = [] \<longrightarrow> relation_name f = [])
        \<and> relation_type f \<in> set [[], ''S/O'', ''W/O'', ''C/O'']"
    by simp
  from p c q show ?thesis by blast
qed

text \<open>
  Witness for C7: the windows \<open>Father Name: RAJAN\<close>, \<open>Husband Name: RAJAN\<close> and
  \<open>Mother Name: RAJAN\<close> give the name with the type of their label; a window with a
  husband label and a father label gives the father's; the window \<open>Age: 34\<close> gives an
  empty type and an empty name; the window \<open>Father Name:-\<close> gives the type \<open>S/O\<close> and
  an empty name.
\<close>

theorem C7_relation_name_has_type_witness:
  "(\<exists>f. parse_block ''Father Name: RAJAN'' = Inr f
        \<and> relation_type f = ''S/O'' \<and> relation_name f = ''RAJAN'')
   \<and> (\<exists>f. parse_block ''Husband Name: RAJAN'' = Inr f
        \<and> relation_type f = ''W/O'' \<and> relation_name f = ''RAJAN'')
   \<and> (\<exists>f. parse_block ''Mother Name: RAJAN'' = Inr f
        \<and> relation_type f = ''C/O'' \<and> relation_name f = ''RAJAN'')
   \<and> (\<exists>f. parse_block (''Husband Name: A'' @ [NL] @ ''Father Name: B'') = Inr f
        \<and> relation_type f = ''S/O'' \<and> relation_name f = ''B'')
   \<and> (\<exists>f. parse_block ''Age: 34'' = Inr f \<and> relation_type f = [] \<and> relation_name f = [])
   \<and> (\<exists>f. parse_block ''Father Name:-'' = Inr f
        \<and> relation_type f = ''S/O'' \<and> relation_name f = [])"
  using C7_relation_name_has_type [of "''Age: 34''"] run_age run_father run_relations
    run_father_dash
  by (simp add: no_fields_def)

subsection \<open>C9: the functions return\<close>



subsection \<open>C8: cleaning twice\<close>

text \<open>
  Claim C8, as stated: \<open>clean (clean s) = clean s\<close> for every string \<open>s\<close>.  \<open>clean\<close>
  removes the trailing hyphens and tildes before it removes the tail that starts at a
  name label, so the result can end in a hyphen that a second pass removes: \<open>clean\<close>
  turns \<open>a- Name:x\<close> into \<open>a-\<close> and \<open>a-\<close> into \<open>a\<close>.
\<close>

theorem C8_clean_twice_differs:
  "clean ''a- Name:x'' = ''a-'' \<and> clean (clean ''a- Name:x'') = ''a''
   \<and> clean (clean ''a- Name:x'') \<noteq> clean ''a- Name:x''"
  by (simp add: run_clean)

text \<open>
  Claim C8, amended: for every string \<open>s\<close>, \<open>clean (clean s) = clean s\<close> exactly when
  \<open>clean s\<close> is empty or does not end in a hyphen or a tilde; when it ends in one, the
  second pass gives a shorter string.
\<close>

theorem C8_clean_idempotent_iff:
  "(clean (clean s) = clean s \<longleftrightarrow> clean s = [] \<or> last (clean s) \<notin> set ''-~'')
   \<and> (clean s \<noteq> [] \<and> last (clean s) \<in> set ''-~''
        \<longrightarrow> length (clean (clean s)) < length (clean s))"
proof (intro conjI iffI impI)
  assume "clean s = [] \<or> last (clean s) \<notin> set ''-~''"
  then show "clean (clean s) = clean s" by (rule clean_fix)
next
  assume e: "clean (clean s) = clean s"
  show "clean s = [] \<or> last (clean s) \<notin> set ''-~''"
  proof (rule ccontr)
    assume "\<not> (clean s = [] \<or> last (clean s) \<notin> set ''-~'')"
    then have "clean s \<noteq> []" "last (clean s) \<in> set ''-~''" by simp_all
    from clean_shrinks[OF this] e show False by simp
  qed
next
  assume "clean s \<noteq> [] \<and> last (clean s) \<in> set ''-~''"
  then show "length (clean (clean s)) < length (clean s)" by (simp add: clean_shrinks)
qed

text \<open>
  Witness for C8: \<open>clean\<close> turns \<open> RAMESH   KUMAR -\<close> into \<open>RAMESH KUMAR\<close>, which does
  not end in a hyphen or a tilde and which a second pass leaves as it is; it turns
  \<open>RAMESH KUMAR~ Name: X\<close> into \<open>RAMESH KUMAR~\<close>, which a second pass shortens.
\<close>

theorem C8_clean_idempotent_iff_witness:
  "clean '' RAMESH   KUMAR -'' = ''RAMESH KUMAR''
   \<and> clean (clean '' RAMESH   KUMAR -'') = clean '' RAMESH   KUMAR -''
   \<and> clean ''RAMESH KUMAR~ Name: X'' = ''RAMESH KUMAR~''
   \<and> length (clean (clean ''RAMESH KUMAR~ Name: X'')) < length (clean ''RAMESH KUMAR~ Name: X'')"
  using C8_clean_idempotent_iff [of "'' RAMESH   KUMAR -''"]
    C8_clean_idempotent_iff [of "''RAMESH KUMAR~ Name: X''"] run_clean
  by simp

subsection \<open>C10: a name taken from a relation label\<close>

text \<open>
  Claim C10: the window \<open>Father Name: RAJAN\<close> has a relation label and no name label
  of its own, and \<open>parse_block\<close> returns \<open>RAJAN\<close> both as the name and as the relation
  name: the name pattern is not anchored and matches the \<open>Name: ...\<close> that ends the
  relation label.
\<close>

theorem C10_name_from_relation_label:
  "parse_block ''Father Name: RAJAN'' =
     Inr \<lparr>name = ''RAJAN'', relation_type = ''S/O'', relation_name = ''RAJAN'',
          house_number = [], age = [], gender = []\<rparr>"
  by code_simp

end
